theory Spec2Isabelle
  imports Main "HOL-Library.Sublist" "HOL-Library.Multiset" "HOL-Library.Word"
begin

section \<open>Python values\<close>

text \<open>
  A Python \<open>str\<close> is a sequence of Unicode code points and a \<open>bytes\<close> object a sequence of
  octets. String literals of the sources are written with \<open>str_of\<close>; the newline character
  is code point 10, the space 32 and the double quote 34.
\<close>

type_synonym str = "nat list"

type_synonym bytes = "8 word list"

definition str_of :: "string \<Rightarrow> str" where
  "str_of s = map of_char s"

text \<open>
  Exceptions are values. The message of an \<open>AssertionError\<close> keeps the values that the source
  formats into its text, one constructor for each \<open>assert\<close> of the two modules.
\<close>

datatype message =
    No_message
  | Error_during_check
  | No_output_from_process
  | No_output_from_application
  | Return_code_is int
  | Return_code_is_check_the_logs int str
  | Expected_max_age_string
  | Expected_two_parts str
  | Expected_integer str
  | Expected_alpha str
  | Log_not_found str str
  | Log_found str str

datatype error =
    AssertionError message
  | ValueError str
  | UnicodeDecodeError
  | AttributeError
  | TypeError
  | KeyError string

subsection \<open>\<open>str.replace\<close>, \<open>str.split\<close>, \<open>in\<close>\<close>

text \<open>
  \<open>s.replace(old, new)\<close> scans \<open>s\<close> from the left and replaces the non-overlapping
  occurrences of \<open>old\<close>; an empty \<open>old\<close> matches before every character and at the end.
\<close>

function py_replace :: "'a list \<Rightarrow> 'a list \<Rightarrow> 'a list \<Rightarrow> 'a list" where
  "py_replace old new s =
     (if old = [] then new @ concat (map (\<lambda>c. c # new) s)
      else if prefix old s then new @ py_replace old new (drop (length old) s)
      else (case s of [] \<Rightarrow> [] | c # cs \<Rightarrow> c # py_replace old new cs))"
  by pat_completeness auto
termination
  by (relation "measure (\<lambda>(old, new, s). length s)") (auto simp: prefix_def)

declare py_replace.simps [simp del]

text \<open>
  \<open>s.split(sep)\<close> cuts \<open>s\<close> at the non-overlapping occurrences of \<open>sep\<close>, found from the
  left; \<open>cur\<close> is the piece being read. An empty separator raises \<open>ValueError\<close>.
\<close>

function split_from :: "'a list \<Rightarrow> 'a list \<Rightarrow> 'a list \<Rightarrow> 'a list list" where
  "split_from sep cur s =
     (if sep = [] then [cur @ s]
      else if prefix sep s then cur # split_from sep [] (drop (length sep) s)
      else (case s of [] \<Rightarrow> [cur] | c # cs \<Rightarrow> split_from sep (cur @ [c]) cs))"
  by pat_completeness auto
termination
  by (relation "measure (\<lambda>(sep, cur, s). length s)") (auto simp: prefix_def)

declare split_from.simps [simp del]

definition py_split :: "str \<Rightarrow> str \<Rightarrow> error + str list" where
  "py_split sep s =
     (if sep = [] then Inl (ValueError (str_of ''empty separator''))
      else Inr (split_from sep [] s))"

text \<open>\<open>sep.join(pieces)\<close>.\<close>

fun py_join :: "'a list \<Rightarrow> 'a list list \<Rightarrow> 'a list" where
  "py_join sep [] = []"
| "py_join sep [x] = x"
| "py_join sep (x # y # ys) = x @ sep @ py_join sep (y # ys)"

text \<open>\<open>p\<close> occurs in \<open>s\<close> at index \<open>i\<close>; \<open>sub in s\<close> holds when it occurs somewhere.\<close>

definition occurs_at :: "'a list \<Rightarrow> 'a list \<Rightarrow> nat \<Rightarrow> bool" where
  "occurs_at p s i = prefix p (drop i s)"

definition py_in :: "'a list \<Rightarrow> 'a list \<Rightarrow> bool" where
  "py_in sub s = (\<exists>i\<in>{..length s}. occurs_at sub s i)"

subsection \<open>\<open>str.isdigit\<close>, \<open>str.isalpha\<close>\<close>

text \<open>
  Both methods hold of a non-empty string all of whose characters are in the class. On
  ASCII the classes are the decimal digits and the Latin letters; beyond ASCII they are
  read from the interpreter's Unicode database, which the harness takes as given.
\<close>

record unicode_db =
  digit_beyond_ascii :: "nat \<Rightarrow> bool"
  alpha_beyond_ascii :: "nat \<Rightarrow> bool"

definition digit_char :: "unicode_db \<Rightarrow> nat \<Rightarrow> bool" where
  "digit_char db c = (if c < 128 then 48 \<le> c \<and> c \<le> 57 else digit_beyond_ascii db c)"

definition alpha_char :: "unicode_db \<Rightarrow> nat \<Rightarrow> bool" where
  "alpha_char db c =
     (if c < 128 then (65 \<le> c \<and> c \<le> 90) \<or> (97 \<le> c \<and> c \<le> 122)
      else alpha_beyond_ascii db c)"

definition isdigit :: "unicode_db \<Rightarrow> str \<Rightarrow> bool" where
  "isdigit db s = (s \<noteq> [] \<and> list_all (digit_char db) s)"

definition isalpha :: "unicode_db \<Rightarrow> str \<Rightarrow> bool" where
  "isalpha db s = (s \<noteq> [] \<and> list_all (alpha_char db) s)"

text \<open>A database with no digit and no letter beyond ASCII, for running examples.\<close>

definition ascii_only :: unicode_db where
  "ascii_only = \<lparr>digit_beyond_ascii = (\<lambda>c. False), alpha_beyond_ascii = (\<lambda>c. False)\<rparr>"

subsection \<open>\<open>bytes.decode("utf-8")\<close>\<close>

text \<open>
  The strict decoder: it accepts the well-formed byte sequences of the Unicode standard
  (shortest form, no surrogates, nothing above U+10FFFF) and raises
  \<open>UnicodeDecodeError\<close> on anything else. \<open>utf8_char\<close> reads one code point and returns
  it with the bytes that follow.
\<close>

definition is_cont :: "8 word \<Rightarrow> bool" where
  "is_cont b = (0x80 \<le> b \<and> b \<le> 0xBF)"

definition cont_bits :: "8 word \<Rightarrow> nat" where
  "cont_bits b = unat b mod 64"

fun utf8_char :: "bytes \<Rightarrow> (nat \<times> bytes) option" where
  "utf8_char [] = None"
| "utf8_char (b0 # bs) =
     (if b0 < 0x80 then Some (unat b0, bs)
      else if 0xC2 \<le> b0 \<and> b0 \<le> 0xDF then
        (case bs of
           b1 # r \<Rightarrow>
             if is_cont b1 then Some (unat b0 mod 32 * 64 + cont_bits b1, r) else None
         | _ \<Rightarrow> None)
      else if 0xE0 \<le> b0 \<and> b0 \<le> 0xEF then
        (case bs of
           b1 # b2 # r \<Rightarrow>
             if is_cont b1 \<and> is_cont b2
                \<and> (b0 = 0xE0 \<longrightarrow> 0xA0 \<le> b1) \<and> (b0 = 0xED \<longrightarrow> b1 \<le> 0x9F)
             then Some (unat b0 mod 16 * 4096 + cont_bits b1 * 64 + cont_bits b2, r)
             else None
         | _ \<Rightarrow> None)
      else if 0xF0 \<le> b0 \<and> b0 \<le> 0xF4 then
        (case bs of
           b1 # b2 # b3 # r \<Rightarrow>
             if is_cont b1 \<and> is_cont b2 \<and> is_cont b3
                \<and> (b0 = 0xF0 \<longrightarrow> 0x90 \<le> b1) \<and> (b0 = 0xF4 \<longrightarrow> b1 \<le> 0x8F)
             then Some (unat b0 mod 8 * 262144 + cont_bits b1 * 4096
                          + cont_bits b2 * 64 + cont_bits b3, r)
             else None
         | _ \<Rightarrow> None)
      else None)"

function utf8_decode :: "bytes \<Rightarrow> error + str" where
  "utf8_decode bs =
     (if bs = [] then Inr []
      else (case utf8_char bs of
              None \<Rightarrow> Inl UnicodeDecodeError
            | Some (c, r) \<Rightarrow>
                (case utf8_decode r of Inl e \<Rightarrow> Inl e | Inr cs \<Rightarrow> Inr (c # cs))))"
  by pat_completeness auto
termination
proof (relation "measure length")
  show "wf (measure length)" by simp
next
  fix bs :: bytes and x2 c r
  assume "utf8_char bs = Some x2" and "(c, r) = x2"
  then have "utf8_char bs = Some (c, r)" by simp
  then show "(r, bs) \<in> measure length"
    by (cases bs) (auto split: if_splits list.splits)
qed

declare utf8_decode.simps [simp del]


section \<open>\<open>features/src/process_output.py\<close>\<close>

text \<open>
  A finished process as the harness sees it: the pair that \<open>out.communicate()\<close> returns
  and \<open>out.returncode\<close>. The scenario context holds the attributes that the steps write;
  \<open>None\<close> is an attribute that is unset or holds Python's \<open>None\<close>.
\<close>

record popen =
  comm_stdout :: "bytes option"
  comm_stderr :: "bytes option"
  returncode :: int

type_synonym row = "string \<rightharpoonup> str"

record scenario_context =
  ctx_output :: "str list option"
  ctx_stdout :: "bytes option"
  ctx_stderr :: "bytes option"
  ctx_return_code :: "int option"
  ctx_returncode :: "int option"
  ctx_table :: "row list option"

definition COVERAGE_MESSAGE :: str where
  "COVERAGE_MESSAGE = str_of ''warning: GOCOVERDIR not set, no coverage data emitted''"

text \<open>The comprehension \<open>[line for line in output if line != COVERAGE_MESSAGE]\<close>.\<close>

definition normalize_line_sequence :: "str list \<Rightarrow> str list" where
  "normalize_line_sequence lines = filter (\<lambda>line. line \<noteq> COVERAGE_MESSAGE) lines"

text \<open>\<open>if return_code:\<close> holds of an integer other than zero, not of \<open>None\<close> or \<open>0\<close>.\<close>

definition truthy :: "int option \<Rightarrow> bool" where
  "truthy return_code = (case return_code of None \<Rightarrow> False | Some n \<Rightarrow> n \<noteq> 0)"

definition process_generated_output ::
  "scenario_context \<Rightarrow> popen option \<Rightarrow> int option \<Rightarrow> error + scenario_context" where
  "process_generated_output ctx out return_code =
     (case out of
        None \<Rightarrow> Inl (AssertionError No_message)
      | Some p \<Rightarrow>
          if comm_stderr p \<noteq> None then Inl (AssertionError Error_during_check)
          else (case comm_stdout p of
                  None \<Rightarrow> Inl (AssertionError No_output_from_process)
                | Some raw \<Rightarrow>
                    if truthy return_code
                       \<and> \<not> (returncode p = 0 \<or> Some (returncode p) = return_code)
                    then Inl (AssertionError (Return_code_is (returncode p)))
                    else (case utf8_decode raw of
                            Inl e \<Rightarrow> Inl e
                          | Inr text \<Rightarrow>
                              (case py_split (str_of ''\<newline>'') text of
                                 Inl e \<Rightarrow> Inl e
                               | Inr lines \<Rightarrow>
                                   Inr (ctx\<lparr>ctx_output := Some (normalize_line_sequence lines),
                                            ctx_stdout := Some raw,
                                            ctx_stderr := comm_stderr p,
                                            ctx_return_code := Some (returncode p)\<rparr>)))))"

definition filter_coverage_message :: "str \<Rightarrow> str" where
  "filter_coverage_message text = py_replace (COVERAGE_MESSAGE @ str_of ''\<newline>'') [] text"

section \<open>\<open>features/steps/notification_service.py\<close>\<close>

text \<open>The argument of \<open>parse_max_age\<close> is any Python object; only a \<open>str\<close> passes the first assertion.\<close>

datatype pyobj = Str str | Not_a_str

definition parse_max_age :: "unicode_db \<Rightarrow> pyobj \<Rightarrow> error + str" where
  "parse_max_age db max_age =
     (case max_age of
        Not_a_str \<Rightarrow> Inl (AssertionError Expected_max_age_string)
      | Str s \<Rightarrow>
          (case py_split (str_of '' '') (py_replace (str_of ''\"'') [] s) of
             Inl e \<Rightarrow> Inl e
           | Inr items \<Rightarrow>
               if length items \<noteq> 2 then Inl (AssertionError (Expected_two_parts s))
               else if \<not> isdigit db (items ! 0)
                 then Inl (AssertionError (Expected_integer (items ! 0)))
               else if \<not> isalpha db (items ! 1)
                 then Inl (AssertionError (Expected_alpha (items ! 1)))
               else Inr s))"

definition process_ccx_notification_service_output ::
  "scenario_context \<Rightarrow> popen option \<Rightarrow> int list \<Rightarrow> error + scenario_context" where
  "process_ccx_notification_service_output ctx out return_codes =
     (case out of
        None \<Rightarrow> Inl (AssertionError No_message)
      | Some p \<Rightarrow>
          if comm_stderr p \<noteq> None then Inl (AssertionError Error_during_check)
          else (case comm_stdout p of
                  None \<Rightarrow> Inl (AssertionError No_output_from_application)
                | Some raw \<Rightarrow>
                    if \<not> (returncode p = 0 \<or> returncode p \<in> set return_codes)
                    then (case utf8_decode raw of
                            Inl e \<Rightarrow> Inl e
                          | Inr logs \<Rightarrow>
                              Inl (AssertionError
                                     (Return_code_is_check_the_logs (returncode p) logs)))
                    else (case utf8_decode raw of
                            Inl e \<Rightarrow> Inl e
                          | Inr text \<Rightarrow>
                              (case py_split (str_of ''\<newline>'') text of
                                 Inl e \<Rightarrow> Inl e
                               | Inr lines \<Rightarrow>
                                   Inr (ctx\<lparr>ctx_output := Some lines,
                                            ctx_stdout := Some raw,
                                            ctx_stderr := comm_stderr p,
                                            ctx_returncode := Some (returncode p)\<rparr>)))))"

text \<open>
  \<open>check_logs\<close>: the loop over the rows of the scenario table stops at the first row that
  raises. \<open>row["log"]\<close> raises \<open>KeyError\<close> when the table has no such column.
\<close>

definition cell :: "row \<Rightarrow> string \<Rightarrow> error + str" where
  "cell r name = (case r name of None \<Rightarrow> Inl (KeyError name) | Some v \<Rightarrow> Inr v)"

definition check_row :: "str \<Rightarrow> row \<Rightarrow> error + unit" where
  "check_row text r =
     (case cell r ''log'' of
        Inl e \<Rightarrow> Inl e
      | Inr log \<Rightarrow>
          (case cell r ''contains'' of
             Inl e \<Rightarrow> Inl e
           | Inr contains \<Rightarrow>
               if contains = str_of ''yes'' then
                 (if py_in log text then Inr ()
                  else Inl (AssertionError (Log_not_found log text)))
               else if contains = str_of ''no'' then
                 (if \<not> py_in log text then Inr ()
                  else Inl (AssertionError (Log_found log text)))
               else Inl (ValueError
                           (str_of ''option \"'' @ contains
                              @ str_of ''\" is other than \"yes\" or \"no\"''))))"

fun check_rows :: "str \<Rightarrow> row list \<Rightarrow> error + unit" where
  "check_rows text [] = Inr ()"
| "check_rows text (r # rows) =
     (case check_row text r of Inl e \<Rightarrow> Inl e | Inr _ \<Rightarrow> check_rows text rows)"

definition check_logs :: "scenario_context \<Rightarrow> error + unit" where
  "check_logs ctx =
     (case ctx_stdout ctx of
        None \<Rightarrow> Inl AttributeError
      | Some raw \<Rightarrow>
          (case utf8_decode raw of
             Inl e \<Rightarrow> Inl e
           | Inr text \<Rightarrow>
               (case ctx_table ctx of
                  None \<Rightarrow> Inl TypeError
                | Some rows \<Rightarrow> check_rows text rows)))"

section \<open>Notions of the specification\<close>

text \<open>
  The text the specification calls the Coverage Marker Line followed by a line terminator.
\<close>

abbreviation marker_line :: str where
  "marker_line \<equiv> COVERAGE_MESSAGE @ str_of ''\<newline>''"

text \<open>
  Index \<open>j\<close> of \<open>s\<close> lies inside an occurrence of \<open>p\<close>. Removing every occurrence of \<open>p\<close>
  keeps, in order, the characters of \<open>s\<close> that lie inside none.
\<close>

definition covered :: "'a list \<Rightarrow> 'a list \<Rightarrow> nat \<Rightarrow> bool" where
  "covered p s j = (\<exists>i\<in>{..j}. j < i + length p \<and> occurs_at p s i)"

definition remove_occurrences :: "'a list \<Rightarrow> 'a list \<Rightarrow> 'a list" where
  "remove_occurrences p s =
     map fst (filter (\<lambda>(c, j). \<not> covered p s j) (zip s [0..<length s]))"

text \<open>
  Index \<open>i\<close> starts a line of \<open>s\<close>, where \<open>t\<close> ends lines; every occurrence of \<open>p\<close> in \<open>s\<close>
  starts a line.
\<close>

definition starts_line :: "'a \<Rightarrow> 'a list \<Rightarrow> nat \<Rightarrow> bool" where
  "starts_line t s i = (i = 0 \<or> s ! (i - 1) = t)"

definition whole_lines :: "'a list \<Rightarrow> 'a \<Rightarrow> 'a list \<Rightarrow> bool" where
  "whole_lines p t s = (\<forall>i\<in>{..length s}. occurs_at p s i \<longrightarrow> starts_line t s i)"

text \<open>
  Exactly two space-separated tokens, the first entirely digits and the second entirely
  alphabetic: the only space of \<open>s\<close> is at some index \<open>i\<close>, with digits before it and
  letters after it.
\<close>

definition two_tokens :: "unicode_db \<Rightarrow> str \<Rightarrow> bool" where
  "two_tokens db s =
     (\<exists>i\<in>{..<length s}.
        s ! i = 32 \<and> 32 \<notin> set (take i s) \<and> 32 \<notin> set (drop (Suc i) s)
        \<and> isdigit db (take i s) \<and> isalpha db (drop (Suc i) s))"

text \<open>
  A row of the scenario table agrees with the decoded output: it says \<open>yes\<close> and its log
  text is in the output, or it says \<open>no\<close> and its log text is not.
\<close>

definition row_passes :: "str \<Rightarrow> row \<Rightarrow> bool" where
  "row_passes text r =
     (case (r ''log'', r ''contains'') of
        (Some log, Some contains) \<Rightarrow>
          (contains = str_of ''yes'' \<and> py_in log text)
          \<or> (contains = str_of ''no'' \<and> \<not> py_in log text)
      | _ \<Rightarrow> False)"

text \<open>
  The lines of a text: the pieces with no newline in them that, joined by newlines, give
  the text back.
\<close>

definition lines_of :: "str \<Rightarrow> str list \<Rightarrow> bool" where
  "lines_of text lines =
     (lines \<noteq> [] \<and> (\<forall>l\<in>set lines. 10 \<notin> set l) \<and> py_join [10] lines = text)"

text \<open>
  UTF-8 as the Unicode standard defines it: the scalar values are the code points up to
  U+10FFFF other than the surrogates, and each is written in one to four bytes.
\<close>

definition scalar_value :: "nat \<Rightarrow> bool" where
  "scalar_value c = (c < 0x110000 \<and> \<not> (0xD800 \<le> c \<and> c \<le> 0xDFFF))"

definition byte :: "nat \<Rightarrow> 8 word" where
  "byte n = of_nat n"

definition utf8_encode_char :: "nat \<Rightarrow> bytes" where
  "utf8_encode_char c =
     (if c < 0x80 then [byte c]
      else if c < 0x800 then [byte (0xC0 + c div 64), byte (0x80 + c mod 64)]
      else if c < 0x10000 then
        [byte (0xE0 + c div 4096), byte (0x80 + c div 64 mod 64), byte (0x80 + c mod 64)]
      else [byte (0xF0 + c div 262144), byte (0x80 + c div 4096 mod 64),
            byte (0x80 + c div 64 mod 64), byte (0x80 + c mod 64)])"

definition utf8_encode :: "str \<Rightarrow> bytes" where
  "utf8_encode s = concat (map utf8_encode_char s)"

text \<open>A scenario context on which no step has written yet.\<close>

definition empty_context :: scenario_context where
  "empty_context = \<lparr>ctx_output = None, ctx_stdout = None, ctx_stderr = None,
                     ctx_return_code = None, ctx_returncode = None, ctx_table = None\<rparr>"

section \<open>Facts about \<open>str.replace\<close>\<close>

lemma py_replace_Nil: "old \<noteq> [] \<Longrightarrow> py_replace old new [] = []"
  by (simp add: py_replace.simps)

lemma py_replace_prefix:
  "old \<noteq> [] \<Longrightarrow> py_replace old new (old @ s) = new @ py_replace old new s"
  by (subst py_replace.simps) simp

lemma py_replace_Cons:
  "old \<noteq> [] \<Longrightarrow> \<not> prefix old (c # cs) \<Longrightarrow>
   py_replace old new (c # cs) = c # py_replace old new cs"
  by (subst py_replace.simps) simp

lemma py_in_sublist: "py_in sub s = sublist sub s"
proof
  assume "py_in sub s"
  then obtain i where "prefix sub (drop i s)"
    by (auto simp: py_in_def occurs_at_def)
  then obtain r where "drop i s = sub @ r" by (auto simp: prefix_def)
  then have "s = take i s @ sub @ r" by (metis append_take_drop_id)
  then show "sublist sub s" unfolding sublist_def by blast
next
  assume "sublist sub s"
  then obtain a b where s: "s = a @ sub @ b" by (auto simp: sublist_def)
  then have "prefix sub (drop (length a) s)" by simp
  moreover have "length a \<le> length s" using s by simp
  ultimately show "py_in sub s" by (auto simp: py_in_def occurs_at_def)
qed

lemma py_replace_absent:
  "\<not> sublist old s \<Longrightarrow> py_replace old new s = s"
proof (induction s)
  case Nil
  then show ?case by (cases "old = []") (auto simp: py_replace_Nil)
next
  case (Cons c cs)
  have ne: "old \<noteq> []" using Cons.prems by auto
  have np: "\<not> prefix old (c # cs)"
    using Cons.prems by (auto dest: prefix_imp_sublist)
  have "\<not> sublist old cs" using Cons.prems by (auto simp: sublist_Cons_right)
  then show ?case using Cons.IH ne np by (simp add: py_replace_Cons)
qed

lemma scan_induct [consumes 1, case_names Nil Match Skip]:
  assumes "old \<noteq> []"
    and "P []"
    and "\<And>r. P r \<Longrightarrow> P (old @ r)"
    and "\<And>c cs. \<not> prefix old (c # cs) \<Longrightarrow> P cs \<Longrightarrow> P (c # cs)"
  shows "P s"
proof (induction s rule: length_induct)
  case (1 s)
  show ?case
  proof (cases "prefix old s")
    case True
    then obtain r where s: "s = old @ r" by (auto simp: prefix_def)
    have "length r < length s" using s assms(1) by simp
    then have "P r" using 1 by blast
    then show ?thesis unfolding s by (rule assms(3))
  next
    case False
    show ?thesis
    proof (cases s)
      case Nil
      then show ?thesis using assms(2) by simp
    next
      case (Cons c cs)
      then have "P cs" using 1 by simp
      then show ?thesis using False assms(4) Cons by simp
    qed
  qed
qed

lemma length_py_replace_le:
  assumes "old \<noteq> []"
  shows "length (py_replace old [] s) \<le> length s"
  using assms
proof (induction s rule: scan_induct)
  case Nil
  then show ?case using assms by (simp add: py_replace_Nil)
next
  case (Match r)
  then show ?case using assms by (simp add: py_replace_prefix)
next
  case (Skip c cs)
  then show ?case using assms by (simp add: py_replace_Cons)
qed

lemma length_py_replace_less:
  assumes "old \<noteq> []" and "sublist old s"
  shows "length (py_replace old [] s) < length s"
  using assms
proof (induction s rule: scan_induct)
  case Nil
  then show ?case using assms(1) by simp
next
  case (Match r)
  have "length (py_replace old [] r) \<le> length r"
    by (rule length_py_replace_le[OF assms(1)])
  moreover have "0 < length old" using assms(1) by simp
  ultimately have "length (py_replace old [] r) < length old + length r"
    by linarith
  moreover have "py_replace old [] (old @ r) = py_replace old [] r"
    using assms(1) by (simp add: py_replace_prefix)
  ultimately show ?case by (simp only: length_append)
next
  case (Skip c cs)
  then have "sublist old cs" by (auto simp: sublist_Cons_right)
  then show ?case using Skip assms(1) by (simp add: py_replace_Cons)
qed

lemma py_replace_fixed_iff:
  "old \<noteq> [] \<Longrightarrow> py_replace old [] s = s \<longleftrightarrow> \<not> sublist old s"
  using length_py_replace_less[of old s] py_replace_absent[of old s "[]"]
  by (metis less_irrefl)


subsection \<open>Patterns that end in a terminator they do not otherwise contain\<close>

text \<open>
  The marker line ends in a newline and has no other: occurrences of such a pattern can
  neither overlap each other nor reach across another occurrence.
\<close>

lemma terminator_unique:
  "t \<notin> set a \<Longrightarrow> t \<notin> set b \<Longrightarrow> a @ t # r = b @ t # r' \<Longrightarrow> a = b \<and> r = r'"
proof (induction a arbitrary: b)
  case Nil
  then show ?case by (cases b) auto
next
  case (Cons x a)
  then show ?case by (cases b) auto
qed

lemma prefix_terminated_append:
  assumes p: "p = m @ [t]" and t: "t \<notin> set m"
    and pre: "prefix p (x @ p @ y)"
  shows "x = [] \<or> prefix p x"
proof (cases "t \<in> set x")
  case False
  from pre obtain r where "x @ m @ t # y = m @ t # r" by (auto simp: prefix_def p)
  then have "(x @ m) @ t # y = m @ t # r" by simp
  then have "x @ m = m" using terminator_unique[of t "x @ m" m y r] t False by simp
  then show ?thesis by simp
next
  case True
  then obtain x1 x2 where x: "x = x1 @ t # x2" and x1: "t \<notin> set x1"
    by (auto dest: split_list_first)
  from pre obtain r where "x @ m @ t # y = m @ t # r" by (auto simp: prefix_def p)
  then have "x1 @ t # (x2 @ m @ t # y) = m @ t # r" using x by simp
  then have "x1 = m" using terminator_unique[of t x1 m] t x1 by blast
  then show ?thesis using x p by simp
qed

lemma prefix_terminated_tail:
  assumes p: "p = m @ [t]" and t: "t \<notin> set m" and t': "t \<notin> set m'"
    and pre: "prefix p (x @ m')"
  shows "prefix p x"
proof -
  from pre obtain r where e: "x @ m' = m @ t # r" by (auto simp: prefix_def p)
  then have "t \<in> set (x @ m')" by simp
  then have "t \<in> set x" using t' by simp
  then obtain x1 x2 where x: "x = x1 @ t # x2" and x1: "t \<notin> set x1"
    by (auto dest: split_list_first)
  from e x have "x1 @ t # (x2 @ m') = m @ t # r" by simp
  then have "x1 = m" using terminator_unique[of t x1 m] t x1 by blast
  then show ?thesis using x p by simp
qed

lemma py_replace_around:
  assumes p: "p = m @ [t]" and t: "t \<notin> set m"
  shows "py_replace p [] (x @ p @ y) = py_replace p [] x @ py_replace p [] y"
proof -
  have ne: "p \<noteq> []" using p by simp
  show ?thesis using ne
  proof (induction x rule: scan_induct)
    case Nil
    show ?case by (simp add: py_replace_prefix[OF ne] py_replace_Nil[OF ne])
  next
    case (Match r)
    have "py_replace p [] (p @ (r @ p @ y)) = py_replace p [] (r @ p @ y)"
      by (simp add: py_replace_prefix[OF ne])
    moreover have "py_replace p [] (p @ r) = py_replace p [] r"
      by (simp add: py_replace_prefix[OF ne])
    ultimately show ?case using Match by simp
  next
    case (Skip c cs)
    have "\<not> prefix p ((c # cs) @ p @ y)"
      using prefix_terminated_append[OF p t, of "c # cs" y] Skip(1) by blast
    then have "\<not> prefix p (c # (cs @ p @ y))" by simp
    then have "py_replace p [] (c # (cs @ p @ y)) = c # py_replace p [] (cs @ p @ y)"
      by (rule py_replace_Cons[OF ne])
    moreover have "py_replace p [] (c # cs) = c # py_replace p [] cs"
      by (rule py_replace_Cons[OF ne Skip(1)])
    ultimately show ?case using Skip(2) by simp
  qed
qed

lemma py_replace_tail:
  assumes p: "p = m @ [t]" and t: "t \<notin> set m" and t': "t \<notin> set m'"
  shows "py_replace p [] (x @ m') = py_replace p [] x @ m'"
proof -
  have ne: "p \<noteq> []" using p by simp
  show ?thesis using ne
  proof (induction x rule: scan_induct)
    case Nil
    have "\<not> sublist p m'"
      using t' set_mono_sublist[of p m'] p by auto
    then show ?case by (simp add: py_replace_absent py_replace_Nil[OF ne])
  next
    case (Match r)
    have "py_replace p [] (p @ (r @ m')) = py_replace p [] (r @ m')"
      by (simp add: py_replace_prefix[OF ne])
    moreover have "py_replace p [] (p @ r) = py_replace p [] r"
      by (simp add: py_replace_prefix[OF ne])
    ultimately show ?case using Match by simp
  next
    case (Skip c cs)
    have "\<not> prefix p ((c # cs) @ m')"
      using prefix_terminated_tail[OF p t t', of "c # cs"] Skip(1) by blast
    then have "\<not> prefix p (c # (cs @ m'))" by simp
    then have "py_replace p [] (c # (cs @ m')) = c # py_replace p [] (cs @ m')"
      by (rule py_replace_Cons[OF ne])
    moreover have "py_replace p [] (c # cs) = c # py_replace p [] cs"
      by (rule py_replace_Cons[OF ne Skip(1)])
    ultimately show ?case using Skip(2) by simp
  qed
qed

subsection \<open>Removal, position by position\<close>

lemma remove_occurrences_nths:
  "remove_occurrences p s = nths s {j. \<not> covered p s j}"
  by (simp add: remove_occurrences_def nths_def case_prod_unfold)

lemma nths_none: "(\<And>j. j < length xs \<Longrightarrow> j \<notin> A) \<Longrightarrow> nths xs A = []"
  by (auto simp: nths_def filter_empty_conv in_set_zip)

lemma occurs_at_Suc: "occurs_at p (c # cs) (Suc i) = occurs_at p cs i"
  by (simp add: occurs_at_def)

lemma occurs_at_zero: "occurs_at p s 0 = prefix p s"
  by (simp add: occurs_at_def)

lemma occurs_at_past:
  assumes p: "p = m @ [t]" and t: "t \<notin> set m"
  shows "occurs_at p (p @ s) i \<longleftrightarrow>
         i = 0 \<or> (length p \<le> i \<and> occurs_at p s (i - length p))"
proof (cases "i = 0 \<or> length p \<le> i")
  case True
  then show ?thesis by (auto simp: occurs_at_def)
next
  case False
  then have i: "0 < i" "i \<le> length m" using p by auto
  have "\<not> prefix (m @ [t]) (drop i m @ t # s)"
  proof
    assume "prefix (m @ [t]) (drop i m @ t # s)"
    then obtain r where "drop i m @ t # s = m @ t # r" by (auto simp: prefix_def)
    moreover have "t \<notin> set (drop i m)" using t by (auto dest: in_set_dropD)
    ultimately have "drop i m = m" using terminator_unique[of t "drop i m" m s r] t by blast
    then have "length m - i = length m" by (metis length_drop)
    then show False using i by simp
  qed
  moreover have "drop i (p @ s) = drop i m @ t # s" using i p by simp
  ultimately have "\<not> occurs_at p (p @ s) i" using p by (simp add: occurs_at_def)
  then show ?thesis using False by simp
qed

lemma covered_match:
  assumes p: "p = m @ [t]" and t: "t \<notin> set m"
  shows "covered p (p @ s) j \<longleftrightarrow> j < length p \<or> covered p s (j - length p)"
proof
  assume "covered p (p @ s) j"
  then obtain i where i: "i \<le> j" "j < i + length p" "occurs_at p (p @ s) i"
    by (auto simp: covered_def)
  show "j < length p \<or> covered p s (j - length p)"
  proof (cases "i = 0")
    case True
    then show ?thesis using i by simp
  next
    case False
    then have "length p \<le> i" "occurs_at p s (i - length p)"
      using i(3) occurs_at_past[OF p t, of s i] by auto
    moreover have "i - length p \<le> j - length p" "j - length p < (i - length p) + length p"
      using i calculation(1) by auto
    ultimately have "covered p s (j - length p)"
      unfolding covered_def by blast
    then show ?thesis ..
  qed
next
  assume a: "j < length p \<or> covered p s (j - length p)"
  show "covered p (p @ s) j"
  proof (cases "j < length p")
    case True
    have "occurs_at p (p @ s) 0" by (simp add: occurs_at_def)
    then show ?thesis using True unfolding covered_def by (intro bexI[of _ 0]) auto
  next
    case False
    with a obtain i where i: "i \<le> j - length p" "j - length p < i + length p" "occurs_at p s i"
      by (auto simp: covered_def)
    have "occurs_at p (p @ s) (i + length p)" using i(3) by (simp add: occurs_at_def)
    moreover have "i + length p \<le> j" "j < (i + length p) + length p" using i False by auto
    ultimately show ?thesis unfolding covered_def by blast
  qed
qed

lemma covered_skip:
  assumes "\<not> prefix p (c # cs)"
  shows "covered p (c # cs) j \<longleftrightarrow> 0 < j \<and> covered p cs (j - 1)"
proof
  assume "covered p (c # cs) j"
  then obtain i where i: "i \<le> j" "j < i + length p" "occurs_at p (c # cs) i"
    by (auto simp: covered_def)
  have "i \<noteq> 0"
  proof
    assume "i = 0"
    with i(3) assms show False by (simp add: occurs_at_zero)
  qed
  then obtain k where k: "i = Suc k" by (cases i) auto
  then have "occurs_at p cs k" using i(3) by (simp add: occurs_at_Suc)
  moreover have "k \<le> j - 1" "j - 1 < k + length p" "0 < j" using i k by auto
  ultimately show "0 < j \<and> covered p cs (j - 1)" unfolding covered_def by blast
next
  assume a: "0 < j \<and> covered p cs (j - 1)"
  then obtain i where i: "i \<le> j - 1" "j - 1 < i + length p" "occurs_at p cs i"
    by (auto simp: covered_def)
  have "occurs_at p (c # cs) (Suc i)" using i(3) by (simp add: occurs_at_Suc)
  moreover have "Suc i \<le> j" "j < Suc i + length p" using i a by auto
  ultimately show "covered p (c # cs) j" unfolding covered_def by blast
qed

lemma py_replace_remove_occurrences:
  assumes p: "p = m @ [t]" and t: "t \<notin> set m"
  shows "py_replace p [] s = remove_occurrences p s"
proof -
  have ne: "p \<noteq> []" using p by simp
  show ?thesis using ne
  proof (induction s rule: scan_induct)
    case Nil
    show ?case by (simp add: py_replace_Nil[OF ne] remove_occurrences_def)
  next
    case (Match r)
    let ?A = "{j. \<not> covered p (p @ r) j}"
    have "nths p ?A = []"
      by (rule nths_none) (simp add: covered_match[OF p t])
    moreover have "{j. j + length p \<in> ?A} = {j. \<not> covered p r j}"
      by (simp add: covered_match[OF p t])
    ultimately have "nths (p @ r) ?A = nths r {j. \<not> covered p r j}"
      by (simp only: nths_append append_Nil)
    moreover have "py_replace p [] (p @ r) = py_replace p [] r"
      by (simp add: py_replace_prefix[OF ne])
    ultimately show ?case using Match by (simp only: remove_occurrences_nths)
  next
    case (Skip c cs)
    let ?A = "{j. \<not> covered p (c # cs) j}"
    have "0 \<in> ?A" by (simp add: covered_skip[OF Skip(1)])
    moreover have "{j. Suc j \<in> ?A} = {j. \<not> covered p cs j}"
      by (simp add: covered_skip[OF Skip(1)])
    ultimately have "nths (c # cs) ?A = c # nths cs {j. \<not> covered p cs j}"
      by (simp only: nths_Cons if_True append_Cons append_Nil)
    moreover have "py_replace p [] (c # cs) = c # py_replace p [] cs"
      by (rule py_replace_Cons[OF ne Skip(1)])
    ultimately show ?case using Skip(2) by (simp only: remove_occurrences_nths)
  qed
qed

subsection \<open>Occurrences that start a line\<close>

lemma occurs_at_bound: "p \<noteq> [] \<Longrightarrow> occurs_at p s i \<Longrightarrow> i < length s"
  by (cases "i < length s") (auto simp: occurs_at_def)

lemma sublist_occurs: "sublist p s \<longleftrightarrow> (\<exists>i\<le>length s. occurs_at p s i)"
  using py_in_sublist[of p s] by (auto simp: py_in_def)

lemma scan_invariant:
  assumes p: "p = m @ [t]" and t: "t \<notin> set m"
    and inv: "\<And>i. occurs_at p (x @ s) i \<Longrightarrow> length x \<le> i \<and> starts_line t (x @ s) i"
  shows "\<not> sublist p (x @ py_replace p [] s)"
proof -
  have ne: "p \<noteq> []" using p by simp
  show ?thesis using ne inv
  proof (induction s arbitrary: x rule: scan_induct)
    case Nil
    show ?case
    proof
      assume "sublist p (x @ py_replace p [] [])"
      then have "sublist p x" by (simp add: py_replace_Nil[OF ne])
      then obtain i where i: "occurs_at p x i" by (auto simp: sublist_occurs)
      then have "i < length x" by (rule occurs_at_bound[OF ne])
      moreover have "length x \<le> i" using Nil[of i] i by simp
      ultimately show False by simp
    qed
  next
    case (Match r)
    have here: "x = [] \<or> last x = t"
    proof -
      have "occurs_at p (x @ p @ r) (length x)" by (simp add: occurs_at_def)
      then have "starts_line t (x @ p @ r) (length x)" using Match.prems by blast
      then show ?thesis
        by (cases "x = []") (auto simp: starts_line_def nth_append last_conv_nth)
    qed
    have "length x \<le> i \<and> starts_line t (x @ r) i" if occ: "occurs_at p (x @ r) i" for i
    proof (cases "length x \<le> i")
      case True
      then have "occurs_at p r (i - length x)" using occ by (simp add: occurs_at_def)
      then have "occurs_at p (x @ p @ r) (i + length p)"
        using True by (simp add: occurs_at_def)
      then have sl: "starts_line t (x @ p @ r) (i + length p)" using Match.prems by blast
      have "starts_line t (x @ r) i"
      proof (cases "i = length x")
        case True
        then show ?thesis using here
          by (cases "x = []") (auto simp: starts_line_def nth_append last_conv_nth)
      next
        case False
        then have "length x < i" using True by simp
        then show ?thesis using sl ne
          by (auto simp: starts_line_def nth_append)
      qed
      then show ?thesis using True by simp
    next
      case False
      then have il: "i < length x" by simp
      let ?d = "drop i x"
      have d: "?d \<noteq> []" using il by simp
      have pre: "prefix p (?d @ r)" using occ il by (simp add: occurs_at_def)
      have "\<not> prefix p ?d"
      proof
        assume "prefix p ?d"
        then have "occurs_at p (x @ p @ r) i" using il by (simp add: occurs_at_def)
        then show False using Match.prems il by fastforce
      qed
      with pre obtain q where q: "p = ?d @ q" "q \<noteq> []"
        by (auto simp: prefix_append)
      have "last x = t" using here il by auto
      then have "last ?d = t" using il by simp
      then have "t \<in> set ?d" using d by (metis last_in_set)
      moreover have "set ?d \<subseteq> set m"
      proof -
        from q p have "?d @ q = m @ [t]" by simp
        then have "butlast (?d @ q) = m" by (metis butlast_snoc)
        then have "?d @ butlast q = m" using q(2) by (simp add: butlast_append)
        then show ?thesis by (metis set_append Un_upper1)
      qed
      ultimately show ?thesis using t by blast
    qed
    then have "\<not> sublist p (x @ py_replace p [] r)" by (rule Match.IH)
    then show ?case by (simp add: py_replace_prefix[OF ne])
  next
    case (Skip c cs)
    have "length (x @ [c]) \<le> i \<and> starts_line t ((x @ [c]) @ cs) i"
      if occ: "occurs_at p ((x @ [c]) @ cs) i" for i
    proof -
      from occ have o: "occurs_at p (x @ c # cs) i" by simp
      then have a: "length x \<le> i" "starts_line t (x @ c # cs) i"
        using Skip.prems by blast+
      have "i \<noteq> length x"
      proof
        assume "i = length x"
        then have "prefix p (c # cs)" using o by (simp add: occurs_at_def)
        then show False using Skip(1) by simp
      qed
      then show ?thesis using a by simp
    qed
    then have "\<not> sublist p ((x @ [c]) @ py_replace p [] cs)" by (rule Skip.IH)
    then show ?case by (simp add: py_replace_Cons[OF ne Skip(1)])
  qed
qed

lemma whole_lines_clean:
  assumes p: "p = m @ [t]" and t: "t \<notin> set m" and w: "whole_lines p t s"
  shows "\<not> sublist p (py_replace p [] s)"
proof -
  have ne: "p \<noteq> []" using p by simp
  have "length [] \<le> i \<and> starts_line t ([] @ s) i" if "occurs_at p ([] @ s) i" for i
  proof -
    from that have o: "occurs_at p s i" by simp
    then have "i \<le> length s" using occurs_at_bound[OF ne o] by simp
    then show ?thesis using w o by (simp add: whole_lines_def)
  qed
  then have "\<not> sublist p ([] @ py_replace p [] s)" by (rule scan_invariant[OF p t])
  then show ?thesis by simp
qed

section \<open>The coverage message filter\<close>

lemma marker_line_shape: "marker_line = COVERAGE_MESSAGE @ [10]"
  by (simp add: str_of_def)

lemma newline_not_in_marker: "10 \<notin> set COVERAGE_MESSAGE"
  by (simp add: COVERAGE_MESSAGE_def str_of_def)

lemma py_in_Nil: "py_in p [] \<longleftrightarrow> p = []"
  by (simp add: py_in_sublist)

lemma py_in_Cons: "py_in p (c # cs) \<longleftrightarrow> prefix p (c # cs) \<or> py_in p cs"
  by (cases p) (auto simp: py_in_sublist sublist_Cons_right)

text \<open>
  C1. For every input, \<open>filter_coverage_message\<close> returns the characters of the input that
  lie outside every occurrence of the marker line followed by a newline, in their order:
  each such occurrence is removed and nothing else changes. An input with no occurrence
  is returned as it is.
\<close>

theorem filter_coverage_message_removes_occurrences:
  "filter_coverage_message s = remove_occurrences marker_line s
   \<and> (\<not> py_in marker_line s \<longrightarrow> filter_coverage_message s = s)"
proof
  show "filter_coverage_message s = remove_occurrences marker_line s"
    unfolding filter_coverage_message_def
    by (rule py_replace_remove_occurrences[OF marker_line_shape newline_not_in_marker])
  show "\<not> py_in marker_line s \<longrightarrow> filter_coverage_message s = s"
    unfolding filter_coverage_message_def
    using py_replace_absent[of marker_line s "[]"] by (simp only: py_in_sublist) blast
qed

theorem filter_coverage_message_removes_occurrences_witness:
  "remove_occurrences marker_line
     (str_of ''foo\<newline>warning: GOCOVERDIR not set, no coverage data emitted\<newline>baz\<newline>'')
     = str_of ''foo\<newline>baz\<newline>''
   \<and> \<not> py_in marker_line (str_of ''foo bar baz\<newline>'')
   \<and> filter_coverage_message (str_of ''foo bar baz\<newline>'') = str_of ''foo bar baz\<newline>''"
proof -
  let ?s = "str_of ''foo\<newline>warning: GOCOVERDIR not set, no coverage data emitted\<newline>baz\<newline>''"
  let ?u = "str_of ''foo bar baz\<newline>''"
  have "filter_coverage_message ?s = str_of ''foo\<newline>baz\<newline>''"
    by (simp add: filter_coverage_message_def COVERAGE_MESSAGE_def str_of_def py_replace.simps)
  then have a: "remove_occurrences marker_line ?s = str_of ''foo\<newline>baz\<newline>''"
    using filter_coverage_message_removes_occurrences[of ?s] by simp
  have b: "\<not> py_in marker_line ?u"
    by (simp add: COVERAGE_MESSAGE_def str_of_def py_in_Cons py_in_Nil)
  then have "filter_coverage_message ?u = ?u"
    using filter_coverage_message_removes_occurrences[of ?u] by blast
  with a b show ?thesis by blast
qed

text \<open>
  C2. The claim that \<open>filter_coverage_message\<close> is idempotent fails: when a marker line
  stands inside the text of another one, removing it joins the two halves into a new
  marker line, which a second pass removes.
\<close>

theorem filter_coverage_message_not_idempotent:
  "filter_coverage_message (filter_coverage_message
     (str_of ''warning: GOCOVERDIR not set, no coverage data warning: GOCOVERDIR not set, no coverage data emitted\<newline>emitted\<newline>''))
   \<noteq> filter_coverage_message
     (str_of ''warning: GOCOVERDIR not set, no coverage data warning: GOCOVERDIR not set, no coverage data emitted\<newline>emitted\<newline>'')"
  by (simp add: filter_coverage_message_def COVERAGE_MESSAGE_def str_of_def py_replace.simps)

lemma occurs_at_Nil: "occurs_at p [] i \<longleftrightarrow> p = []"
  by (simp add: occurs_at_def)

lemma whole_lines_eval:
  "whole_lines p t s \<longleftrightarrow> list_all (\<lambda>i. occurs_at p s i \<longrightarrow> starts_line t s i) [0..<Suc (length s)]"
  by (auto simp: whole_lines_def list_all_iff less_Suc_eq_le)

text \<open>
  C2, amended. When every occurrence of the marker line in the input starts a line (it
  is at the start of the text or right after a newline), the filtered text has no
  occurrence left and filtering twice is filtering once. In general twice equals once
  exactly when the once-filtered text contains no marker line.
\<close>

theorem filter_coverage_message_idempotent_on_whole_lines:
  "(whole_lines marker_line 10 s \<longrightarrow>
      filter_coverage_message (filter_coverage_message s) = filter_coverage_message s)
   \<and> (filter_coverage_message (filter_coverage_message s) = filter_coverage_message s
        \<longleftrightarrow> \<not> py_in marker_line (filter_coverage_message s))"
proof -
  have ne: "marker_line \<noteq> []" by (simp add: str_of_def)
  have iff: "filter_coverage_message (filter_coverage_message s) = filter_coverage_message s
        \<longleftrightarrow> \<not> py_in marker_line (filter_coverage_message s)"
    unfolding filter_coverage_message_def py_in_sublist
    by (rule py_replace_fixed_iff[OF ne])
  have "\<not> py_in marker_line (filter_coverage_message s)" if "whole_lines marker_line 10 s"
    unfolding filter_coverage_message_def py_in_sublist
    by (rule whole_lines_clean[OF marker_line_shape newline_not_in_marker that])
  with iff show ?thesis by blast
qed

theorem filter_coverage_message_idempotent_on_whole_lines_witness:
  "whole_lines marker_line 10
     (str_of ''a\<newline>warning: GOCOVERDIR not set, no coverage data emitted\<newline>b'')
   \<and> filter_coverage_message (filter_coverage_message
        (str_of ''a\<newline>warning: GOCOVERDIR not set, no coverage data emitted\<newline>b''))
     = filter_coverage_message
        (str_of ''a\<newline>warning: GOCOVERDIR not set, no coverage data emitted\<newline>b'')
   \<and> \<not> py_in marker_line (filter_coverage_message
        (str_of ''a\<newline>warning: GOCOVERDIR not set, no coverage data emitted\<newline>b''))"
proof -
  let ?s = "str_of ''a\<newline>warning: GOCOVERDIR not set, no coverage data emitted\<newline>b''"
  have w: "whole_lines marker_line 10 ?s"
    by (simp add: whole_lines_eval COVERAGE_MESSAGE_def str_of_def occurs_at_def
        starts_line_def upt_rec)
  show ?thesis
    using w filter_coverage_message_idempotent_on_whole_lines[of ?s] by blast
qed

text \<open>
  C3. The claim that \<open>A + MARKER + "\n" + B\<close> is filtered to \<open>A + B\<close> for all \<open>A\<close> and \<open>B\<close>
  fails when \<open>A\<close> or \<open>B\<close> holds a marker line of its own.
\<close>

theorem single_occurrence_removal_fails:
  "filter_coverage_message
     ([] @ COVERAGE_MESSAGE @ str_of ''\<newline>''
         @ str_of ''warning: GOCOVERDIR not set, no coverage data emitted\<newline>'')
   \<noteq> [] @ str_of ''warning: GOCOVERDIR not set, no coverage data emitted\<newline>''"
  by (simp add: filter_coverage_message_def COVERAGE_MESSAGE_def str_of_def py_replace.simps)

text \<open>
  C3, amended. For all \<open>A\<close> and \<open>B\<close>, filtering \<open>A + MARKER + "\n" + B\<close> gives the filtered
  \<open>A\<close> followed by the filtered \<open>B\<close>; the result is \<open>A + B\<close> exactly when neither \<open>A\<close> nor
  \<open>B\<close> contains the marker line followed by a newline.
\<close>

theorem filter_coverage_message_around_marker:
  "filter_coverage_message (A @ COVERAGE_MESSAGE @ str_of ''\<newline>'' @ B)
     = filter_coverage_message A @ filter_coverage_message B
   \<and> (filter_coverage_message (A @ COVERAGE_MESSAGE @ str_of ''\<newline>'' @ B) = A @ B
        \<longleftrightarrow> \<not> py_in marker_line A \<and> \<not> py_in marker_line B)"
proof -
  have ne: "marker_line \<noteq> []" by (simp add: str_of_def)
  have split: "filter_coverage_message (A @ COVERAGE_MESSAGE @ str_of ''\<newline>'' @ B)
     = filter_coverage_message A @ filter_coverage_message B"
    using py_replace_around[OF marker_line_shape newline_not_in_marker, of A B]
    by (simp add: filter_coverage_message_def)
  have fa: "filter_coverage_message A = A \<longleftrightarrow> \<not> py_in marker_line A"
    and fb: "filter_coverage_message B = B \<longleftrightarrow> \<not> py_in marker_line B"
    unfolding filter_coverage_message_def py_in_sublist
    by (rule py_replace_fixed_iff[OF ne])+
  have la: "length (filter_coverage_message A) \<le> length A"
    and lb: "length (filter_coverage_message B) \<le> length B"
    unfolding filter_coverage_message_def by (rule length_py_replace_le[OF ne])+
  have "filter_coverage_message A @ filter_coverage_message B = A @ B
        \<longleftrightarrow> filter_coverage_message A = A \<and> filter_coverage_message B = B"
  proof
    assume e: "filter_coverage_message A @ filter_coverage_message B = A @ B"
    then have "length (filter_coverage_message A) + length (filter_coverage_message B)
               = length A + length B"
      by (metis length_append)
    with la lb have "length (filter_coverage_message A) = length A" by linarith
    with e show "filter_coverage_message A = A \<and> filter_coverage_message B = B"
      by (simp add: append_eq_append_conv)
  qed simp
  with split fa fb show ?thesis by simp
qed

theorem filter_coverage_message_around_marker_witness:
  "\<not> py_in marker_line (str_of ''foo\<newline>'') \<and> \<not> py_in marker_line (str_of ''baz\<newline>'')
   \<and> filter_coverage_message
        (str_of ''foo\<newline>'' @ COVERAGE_MESSAGE @ str_of ''\<newline>'' @ str_of ''baz\<newline>'')
      = str_of ''foo\<newline>'' @ str_of ''baz\<newline>''"
proof -
  have a: "\<not> py_in marker_line (str_of ''foo\<newline>'')"
    and b: "\<not> py_in marker_line (str_of ''baz\<newline>'')"
    by (simp_all add: COVERAGE_MESSAGE_def str_of_def py_in_Cons py_in_Nil)
  then show ?thesis
    using filter_coverage_message_around_marker[of "str_of ''foo\<newline>''" "str_of ''baz\<newline>''"]
    by blast
qed

text \<open>
  C9. A marker at the very end of the text, with no newline after it, is kept: filtering
  \<open>A + MARKER\<close> filters \<open>A\<close> and leaves the marker in place, and a text that ends in the
  marker and contains no marker line is returned unchanged.
\<close>

theorem filter_coverage_message_keeps_unterminated_marker:
  "filter_coverage_message (A @ COVERAGE_MESSAGE) = filter_coverage_message A @ COVERAGE_MESSAGE
   \<and> (\<not> py_in marker_line (A @ COVERAGE_MESSAGE) \<longrightarrow>
        filter_coverage_message (A @ COVERAGE_MESSAGE) = A @ COVERAGE_MESSAGE)"
proof
  show "filter_coverage_message (A @ COVERAGE_MESSAGE)
        = filter_coverage_message A @ COVERAGE_MESSAGE"
    unfolding filter_coverage_message_def
    by (rule py_replace_tail[OF marker_line_shape newline_not_in_marker newline_not_in_marker])
  show "\<not> py_in marker_line (A @ COVERAGE_MESSAGE) \<longrightarrow>
        filter_coverage_message (A @ COVERAGE_MESSAGE) = A @ COVERAGE_MESSAGE"
    unfolding filter_coverage_message_def py_in_sublist
    using py_replace_absent[of marker_line "A @ COVERAGE_MESSAGE" "[]"] by blast
qed

theorem filter_coverage_message_keeps_unterminated_marker_witness:
  "\<not> py_in marker_line (str_of ''foo\<newline>'' @ COVERAGE_MESSAGE)
   \<and> filter_coverage_message (str_of ''foo\<newline>'' @ COVERAGE_MESSAGE)
      = str_of ''foo\<newline>'' @ COVERAGE_MESSAGE"
proof -
  have "\<not> py_in marker_line (str_of ''foo\<newline>'' @ COVERAGE_MESSAGE)"
    by (simp add: COVERAGE_MESSAGE_def str_of_def py_in_Cons py_in_Nil)
  then show ?thesis
    using filter_coverage_message_keeps_unterminated_marker[of "str_of ''foo\<newline>''"]
    by blast
qed

section \<open>The line filter\<close>

text \<open>
  C4. \<open>normalize_line_sequence\<close>, the line filter inside \<open>process_generated_output\<close>,
  returns a subsequence of its input (the order is kept) in which the marker does not
  occur and every other line occurs as often as in the input; it is the only such
  sequence. The empty sequence gives the empty sequence and \<open>["a", MARKER, "b"]\<close> gives
  \<open>["a", "b"]\<close>.
\<close>

theorem normalize_line_sequence_removes_marker:
  "subseq (normalize_line_sequence xs) xs
   \<and> COVERAGE_MESSAGE \<notin> set (normalize_line_sequence xs)
   \<and> mset (normalize_line_sequence xs) = filter_mset (\<lambda>x. x \<noteq> COVERAGE_MESSAGE) (mset xs)
   \<and> (\<forall>ys. subseq ys xs \<and> COVERAGE_MESSAGE \<notin> set ys
            \<and> mset ys = filter_mset (\<lambda>x. x \<noteq> COVERAGE_MESSAGE) (mset xs)
          \<longrightarrow> ys = normalize_line_sequence xs)
   \<and> normalize_line_sequence [] = []
   \<and> normalize_line_sequence [str_of ''a'', COVERAGE_MESSAGE, str_of ''b'']
       = [str_of ''a'', str_of ''b'']"
proof (intro conjI allI impI)
  show "subseq (normalize_line_sequence xs) xs"
    by (simp add: normalize_line_sequence_def)
  show "COVERAGE_MESSAGE \<notin> set (normalize_line_sequence xs)"
    by (simp add: normalize_line_sequence_def)
  show "mset (normalize_line_sequence xs) = filter_mset (\<lambda>x. x \<noteq> COVERAGE_MESSAGE) (mset xs)"
    by (simp add: normalize_line_sequence_def)
  show "normalize_line_sequence [] = []"
    by (simp add: normalize_line_sequence_def)
  show "normalize_line_sequence [str_of ''a'', COVERAGE_MESSAGE, str_of ''b'']
       = [str_of ''a'', str_of ''b'']"
    by (simp add: normalize_line_sequence_def COVERAGE_MESSAGE_def str_of_def)
next
  fix ys
  assume a: "subseq ys xs \<and> COVERAGE_MESSAGE \<notin> set ys
            \<and> mset ys = filter_mset (\<lambda>x. x \<noteq> COVERAGE_MESSAGE) (mset xs)"
  let ?P = "\<lambda>x. x \<noteq> COVERAGE_MESSAGE"
  from a have "subseq (filter ?P ys) (filter ?P xs)" by (simp add: subseq_filter)
  moreover have "filter ?P ys = ys" using a by (auto simp: filter_id_conv)
  ultimately have sub: "subseq ys (filter ?P xs)" by simp
  from a have "mset ys = mset (filter ?P xs)" by simp
  then have "length ys = length (filter ?P xs)" by (rule mset_eq_length)
  with sub have "ys = filter ?P xs" by (simp add: subseq_same_length)
  then show "ys = normalize_line_sequence xs" by (simp add: normalize_line_sequence_def)
qed

theorem normalize_line_sequence_removes_marker_witness:
  "subseq [str_of ''a'', str_of ''b''] [str_of ''a'', COVERAGE_MESSAGE, str_of ''b'']
   \<and> COVERAGE_MESSAGE \<notin> set [str_of ''a'', str_of ''b'']
   \<and> mset [str_of ''a'', str_of ''b'']
       = filter_mset (\<lambda>x. x \<noteq> COVERAGE_MESSAGE)
           (mset [str_of ''a'', COVERAGE_MESSAGE, str_of ''b''])
   \<and> [str_of ''a'', str_of ''b'']
       = normalize_line_sequence [str_of ''a'', COVERAGE_MESSAGE, str_of ''b'']"
proof -
  let ?xs = "[str_of ''a'', COVERAGE_MESSAGE, str_of ''b'']"
  let ?ys = "[str_of ''a'', str_of ''b'']"
  have ne: "str_of ''a'' \<noteq> COVERAGE_MESSAGE" "str_of ''b'' \<noteq> COVERAGE_MESSAGE"
    by (simp_all add: COVERAGE_MESSAGE_def str_of_def)
  have 1: "subseq ?ys ?xs" by simp
  have 2: "COVERAGE_MESSAGE \<notin> set ?ys" using ne by auto
  have 3: "mset ?ys = filter_mset (\<lambda>x. x \<noteq> COVERAGE_MESSAGE) (mset ?xs)"
    using ne by simp
  from 1 2 3 have "?ys = normalize_line_sequence ?xs"
    using normalize_line_sequence_removes_marker[of ?xs] by blast
  with 1 2 3 show ?thesis by blast
qed

section \<open>Facts about \<open>str.split\<close> and the decoder\<close>

lemma split_from_Nil: "sep \<noteq> [] \<Longrightarrow> split_from sep cur [] = [cur]"
  by (simp add: split_from.simps)

lemma split_from_prefix:
  "sep \<noteq> [] \<Longrightarrow> split_from sep cur (sep @ s) = cur # split_from sep [] s"
  by (subst split_from.simps) simp

lemma split_from_Cons:
  "sep \<noteq> [] \<Longrightarrow> \<not> prefix sep (c # cs) \<Longrightarrow>
   split_from sep cur (c # cs) = split_from sep (cur @ [c]) cs"
  by (subst split_from.simps) simp

lemma split_from_not_Nil: "split_from sep cur s \<noteq> []"
proof (cases "sep = []")
  case True
  then show ?thesis by (simp add: split_from.simps)
next
  case False
  then show ?thesis
  proof (induction s arbitrary: cur rule: scan_induct)
    case Nil
    then show ?case using False by (simp add: split_from_Nil)
  next
    case (Match r)
    then show ?case using False by (simp add: split_from_prefix)
  next
    case (Skip c cs)
    then show ?case using False by (simp add: split_from_Cons)
  qed
qed

lemma py_join_Cons:
  "py_join sep (x # xs) = (if xs = [] then x else x @ sep @ py_join sep xs)"
  by (cases xs) simp_all

lemma py_join_split_from:
  assumes "sep \<noteq> []"
  shows "py_join sep (split_from sep cur s) = cur @ s"
  using assms
proof (induction s arbitrary: cur rule: scan_induct)
  case Nil
  then show ?case using assms by (simp add: split_from_Nil)
next
  case (Match r)
  then show ?case using assms
    by (simp add: split_from_prefix py_join_Cons split_from_not_Nil)
next
  case (Skip c cs)
  then show ?case using assms by (simp add: split_from_Cons)
qed

lemma split_from_char_Cons:
  "split_from [t] cur (c # cs) =
     (if c = t then cur # split_from [t] [] cs else split_from [t] (cur @ [c]) cs)"
  using split_from_prefix[of "[t]" cur cs] split_from_Cons[of "[t]" c cs cur]
  by simp

lemma split_from_char_free:
  "t \<notin> set cur \<Longrightarrow> l \<in> set (split_from [t] cur s) \<Longrightarrow> t \<notin> set l"
proof (induction s arbitrary: cur)
  case Nil
  then show ?case by (simp add: split_from_Nil)
next
  case (Cons c cs)
  show ?case
  proof (cases "c = t")
    case True
    then have "l = cur \<or> l \<in> set (split_from [t] [] cs)"
      using Cons.prems(2) by (simp add: split_from_char_Cons)
    then show ?thesis using Cons.prems(1) Cons.IH[of "[]"] by auto
  next
    case False
    then have "l \<in> set (split_from [t] (cur @ [c]) cs)"
      using Cons.prems(2) by (simp add: split_from_char_Cons)
    moreover have "t \<notin> set (cur @ [c])" using False Cons.prems(1) by simp
    ultimately show ?thesis by (rule Cons.IH[rotated])
  qed
qed

lemma split_from_char_piece:
  "t \<notin> set l \<Longrightarrow> split_from [t] cur l = [cur @ l]"
  by (induction l arbitrary: cur) (auto simp: split_from_Nil split_from_char_Cons)

lemma split_from_char_piece_sep:
  "t \<notin> set l \<Longrightarrow> split_from [t] cur (l @ t # r) = (cur @ l) # split_from [t] [] r"
  by (induction l arbitrary: cur) (auto simp: split_from_char_Cons)

lemma split_from_char_join:
  assumes "ls \<noteq> []" and "\<forall>l\<in>set ls. t \<notin> set l"
  shows "split_from [t] cur (py_join [t] ls) = (cur @ hd ls) # tl ls"
  using assms
proof (induction ls arbitrary: cur)
  case Nil
  then show ?case by simp
next
  case (Cons l ls)
  show ?case
  proof (cases "ls = []")
    case True
    then show ?thesis using Cons.prems by (simp add: split_from_char_piece)
  next
    case False
    have "split_from [t] [] (py_join [t] ls) = ([] @ hd ls) # tl ls"
      using Cons.IH[OF False, of "[]"] Cons.prems(2) by simp
    then have "split_from [t] [] (py_join [t] ls) = ls" using False by simp
    then show ?thesis using False Cons.prems(2)
      by (simp add: py_join_Cons split_from_char_piece_sep)
  qed
qed

text \<open>The pieces of a split on one character are the only newline-free pieces that join to the text.\<close>

lemma split_from_char_unique:
  assumes "ls \<noteq> []" and "\<forall>l\<in>set ls. t \<notin> set l" and "py_join [t] ls = s"
  shows "split_from [t] [] s = ls"
  using split_from_char_join[OF assms(1,2), of "[]"] assms(1,3) by simp

lemma py_split_newline:
  "py_split (str_of ''\<newline>'') text = Inr (split_from [10] [] text)"
  by (simp add: py_split_def str_of_def)

lemma lines_of_split: "lines_of text (split_from [10] [] text)"
  unfolding lines_of_def
  using split_from_not_Nil[of "[10]" "[]" "text"] py_join_split_from[of "[10]" "[]" "text"]
    split_from_char_free[of 10 "[]" _ "text"]
  by auto

lemma lines_of_unique: "lines_of text ls \<Longrightarrow> ls = split_from [10] [] text"
  unfolding lines_of_def using split_from_char_unique[of ls 10 "text"] by simp

lemma ccx_Inr:
  assumes "process_ccx_notification_service_output ctx (Some p) rcs = Inr ctx'"
  shows "\<exists>raw text. comm_stderr p = None \<and> comm_stdout p = Some raw
           \<and> (returncode p = 0 \<or> returncode p \<in> set rcs)
           \<and> utf8_decode raw = Inr text
           \<and> ctx' = ctx\<lparr>ctx_output := Some (split_from [10] [] text),
                          ctx_stdout := Some raw,
                          ctx_stderr := comm_stderr p,
                          ctx_returncode := Some (returncode p)\<rparr>"
  using assms
  by (auto simp: process_ccx_notification_service_output_def py_split_newline
      split: option.splits if_splits sum.splits)

lemma pgo_Inr:
  assumes "process_generated_output ctx (Some p) rc = Inr ctx'"
  shows "\<exists>raw text. comm_stderr p = None \<and> comm_stdout p = Some raw
           \<and> (truthy rc \<longrightarrow> returncode p = 0 \<or> Some (returncode p) = rc)
           \<and> utf8_decode raw = Inr text
           \<and> ctx' = ctx\<lparr>ctx_output := Some (normalize_line_sequence (split_from [10] [] text)),
                          ctx_stdout := Some raw,
                          ctx_stderr := comm_stderr p,
                          ctx_return_code := Some (returncode p)\<rparr>"
  using assms
  by (auto simp: process_generated_output_def py_split_newline
      split: option.splits if_splits sum.splits)

lemma py_split_char: "py_split [t] s = Inr (split_from [t] [] s)"
  by (simp add: py_split_def)

lemma utf8_decode_error: "utf8_decode bs = Inl e \<Longrightarrow> e = UnicodeDecodeError"
proof (induction bs rule: utf8_decode.induct)
  case (1 bs)
  then show ?case
    by (subst (asm) (2) utf8_decode.simps) (auto split: if_splits option.splits sum.splits)
qed

lemma utf8_decode_Nil: "utf8_decode [] = Inr []"
  by (simp add: utf8_decode.simps)

lemma utf8_decode_ascii:
  "b < 0x80 \<Longrightarrow> utf8_decode (b # bs) =
     (case utf8_decode bs of Inl e \<Rightarrow> Inl e | Inr cs \<Rightarrow> Inr (unat b # cs))"
  by (subst utf8_decode.simps) simp

lemma utf8_decode_all_ascii:
  "\<forall>b\<in>set bs. b < 0x80 \<Longrightarrow> utf8_decode bs = Inr (map unat bs)"
  by (induction bs) (simp_all add: utf8_decode_Nil utf8_decode_ascii)

section \<open>The decoder reads UTF-8\<close>

text \<open>
  \<open>utf8_decode\<close> succeeds exactly on the encodings of strings of scalar values, and
  returns the string that was encoded.
\<close>

lemma unat_byte: "n < 256 \<Longrightarrow> unat (byte n) = n"
  by (simp add: byte_def unat_of_nat)

lemma mod_above: "k < m \<Longrightarrow> (a * m + k) mod m = (k::nat)"
  by simp

lemma mod64: "k < 64 \<Longrightarrow> (128 + k) mod 64 = (k::nat)"
  using mod_above[of k 64 2] by simp

lemma mod32: "k < 32 \<Longrightarrow> (192 + k) mod 32 = (k::nat)"
  using mod_above[of k 32 6] by simp

lemma mod16: "k < 16 \<Longrightarrow> (224 + k) mod 16 = (k::nat)"
  using mod_above[of k 16 14] by simp

lemma mod8: "k < 8 \<Longrightarrow> (240 + k) mod 8 = (k::nat)"
  using mod_above[of k 8 30] by simp

lemma cont_view:
  assumes "unat b = 128 + k" and "k < 64"
  shows "is_cont b" and "cont_bits b = k"
    and "(0xA0 \<le> b) = (32 \<le> k)" and "(b \<le> 0x9F) = (k \<le> 31)"
    and "(0x90 \<le> b) = (16 \<le> k)" and "(b \<le> 0x8F) = (k \<le> 15)"
  using assms mod64[of k]
  by (simp_all add: is_cont_def cont_bits_def word_le_nat_alt)

lemma utf8_char_one:
  assumes "unat b0 < 128"
  shows "utf8_char (b0 # bs) = Some (unat b0, bs)"
  using assms by (simp add: word_less_nat_alt)

lemma utf8_char_two:
  assumes "unat b0 = 192 + h" and "2 \<le> h" and "h < 32"
    and "unat b1 = 128 + k1" and "k1 < 64"
  shows "utf8_char (b0 # b1 # bs) = Some (h * 64 + k1, bs)"
proof -
  have lead: "\<not> b0 < 0x80" "0xC2 \<le> b0" "b0 \<le> 0xDF"
    using assms(1,2,3) by (simp_all add: word_less_nat_alt word_le_nat_alt)
  have v: "unat b0 mod 32 = h" using assms(1,3) mod32[of h] by simp
  show ?thesis
    using lead v cont_view(1,2)[OF assms(4,5)] by simp
qed

lemma utf8_char_three:
  assumes "unat b0 = 224 + h" and "h < 16"
    and "unat b1 = 128 + k1" and "k1 < 64"
    and "unat b2 = 128 + k2" and "k2 < 64"
    and "h = 0 \<Longrightarrow> 32 \<le> k1" and "h = 13 \<Longrightarrow> k1 \<le> 31"
  shows "utf8_char (b0 # b1 # b2 # bs) = Some (h * 4096 + k1 * 64 + k2, bs)"
proof -
  have lead: "\<not> b0 < 0x80" "\<not> (0xC2 \<le> b0 \<and> b0 \<le> 0xDF)" "0xE0 \<le> b0" "b0 \<le> 0xEF"
    using assms(1,2) by (simp_all add: word_less_nat_alt word_le_nat_alt)
  have e0: "(b0 = 0xE0) = (h = 0)" and ed: "(b0 = 0xED) = (h = 13)"
    using assms(1) by (simp_all add: word_unat_eq_iff)
  have v: "unat b0 mod 16 = h" using assms(1,2) mod16[of h] by simp
  have ok: "(b0 = 0xE0 \<longrightarrow> 0xA0 \<le> b1) \<and> (b0 = 0xED \<longrightarrow> b1 \<le> 0x9F)"
    unfolding e0 ed cont_view(3,4)[OF assms(3,4)] using assms(7,8) by blast
  show ?thesis
    using lead v ok cont_view(1,2)[OF assms(3,4)] cont_view(1,2)[OF assms(5,6)] by simp
qed

lemma utf8_char_four:
  assumes "unat b0 = 240 + h" and "h < 5"
    and "unat b1 = 128 + k1" and "k1 < 64"
    and "unat b2 = 128 + k2" and "k2 < 64"
    and "unat b3 = 128 + k3" and "k3 < 64"
    and "h = 0 \<Longrightarrow> 16 \<le> k1" and "h = 4 \<Longrightarrow> k1 \<le> 15"
  shows "utf8_char (b0 # b1 # b2 # b3 # bs)
         = Some (h * 262144 + k1 * 4096 + k2 * 64 + k3, bs)"
proof -
  have lead: "\<not> b0 < 0x80" "\<not> (0xC2 \<le> b0 \<and> b0 \<le> 0xDF)"
    "\<not> (0xE0 \<le> b0 \<and> b0 \<le> 0xEF)" "0xF0 \<le> b0" "b0 \<le> 0xF4"
    using assms(1,2) by (simp_all add: word_less_nat_alt word_le_nat_alt)
  have e0: "(b0 = 0xF0) = (h = 0)" and e4: "(b0 = 0xF4) = (h = 4)"
    using assms(1) by (simp_all add: word_unat_eq_iff)
  have v: "unat b0 mod 8 = h" using assms(1,2) mod8[of h] by simp
  have ok: "(b0 = 0xF0 \<longrightarrow> 0x90 \<le> b1) \<and> (b0 = 0xF4 \<longrightarrow> b1 \<le> 0x8F)"
    unfolding e0 e4 cont_view(5,6)[OF assms(3,4)] using assms(9,10) by blast
  show ?thesis
    using lead v ok cont_view(1,2)[OF assms(3,4)] cont_view(1,2)[OF assms(5,6)]
      cont_view(1,2)[OF assms(7,8)]
    by simp
qed

lemma utf8_char_encode_1:
  assumes "c < 0x80"
  shows "utf8_char (utf8_encode_char c @ bs) = Some (c, bs)"
proof -
  have u: "unat (byte c) = c" using assms by (simp add: unat_byte)
  then have "utf8_char (byte c # bs) = Some (c, bs)"
    using utf8_char_one[of "byte c" bs] assms by simp
  then show ?thesis using assms by (simp add: utf8_encode_char_def)
qed

lemma utf8_char_encode_2:
  assumes "0x80 \<le> c" and "c < 0x800"
  shows "utf8_char (utf8_encode_char c @ bs) = Some (c, bs)"
proof -
  define h where "h = c div 64"
  define k where "k = c mod 64"
  have c: "h * 64 + k = c" by (simp add: h_def k_def)
  have k: "k < 64" by (simp add: k_def)
  have h: "2 \<le> h" "h < 32" using assms c k by linarith+
  have u0: "unat (byte (192 + h)) = 192 + h" using h by (simp add: unat_byte)
  have u1: "unat (byte (128 + k)) = 128 + k" using k by (simp add: unat_byte)
  have "utf8_char (byte (192 + h) # byte (128 + k) # bs) = Some (h * 64 + k, bs)"
    by (rule utf8_char_two[OF u0 h u1 k])
  then show ?thesis using assms unfolding c by (simp add: utf8_encode_char_def h_def k_def)
qed

lemma utf8_char_encode_3:
  assumes "0x800 \<le> c" and "c < 0x10000" and "\<not> (0xD800 \<le> c \<and> c \<le> 0xDFFF)"
  shows "utf8_char (utf8_encode_char c @ bs) = Some (c, bs)"
proof -
  define q where "q = c div 64"
  define k2 where "k2 = c mod 64"
  define h where "h = q div 64"
  define k1 where "k1 = q mod 64"
  have c: "q * 64 + k2 = c" by (simp add: q_def k2_def)
  have q: "h * 64 + k1 = q" by (simp add: h_def k1_def)
  have k: "k1 < 64" "k2 < 64" by (simp_all add: k1_def k2_def)
  have hd: "c div 4096 = h" by (simp add: h_def q_def div_mult2_eq)
  have kd: "c div 64 mod 64 = k1" by (simp add: k1_def q_def)
  have h: "h < 16" using assms(2) c q k by linarith
  have lo: "32 \<le> k1" if "h = 0" using that assms(1) c q k by linarith
  have hi: "k1 \<le> 31" if "h = 13" using that assms(2,3) c q k by linarith
  have u0: "unat (byte (224 + h)) = 224 + h" using h by (simp add: unat_byte)
  have u1: "unat (byte (128 + k1)) = 128 + k1" using k by (simp add: unat_byte)
  have u2: "unat (byte (128 + k2)) = 128 + k2" using k by (simp add: unat_byte)
  have "utf8_char (byte (224 + h) # byte (128 + k1) # byte (128 + k2) # bs)
        = Some (h * 4096 + k1 * 64 + k2, bs)"
    by (rule utf8_char_three[OF u0 h u1 k(1) u2 k(2) lo hi])
  moreover have "h * 4096 + k1 * 64 + k2 = c" using c q by linarith
  ultimately show ?thesis
    using assms by (simp add: utf8_encode_char_def hd kd k2_def[symmetric])
qed

lemma utf8_char_encode_4:
  assumes "0x10000 \<le> c" and "c < 0x110000"
  shows "utf8_char (utf8_encode_char c @ bs) = Some (c, bs)"
proof -
  define q where "q = c div 64"
  define k3 where "k3 = c mod 64"
  define p where "p = q div 64"
  define k2 where "k2 = q mod 64"
  define h where "h = p div 64"
  define k1 where "k1 = p mod 64"
  have c: "q * 64 + k3 = c" by (simp add: q_def k3_def)
  have q: "p * 64 + k2 = q" by (simp add: p_def k2_def)
  have p: "h * 64 + k1 = p" by (simp add: h_def k1_def)
  have k: "k1 < 64" "k2 < 64" "k3 < 64" by (simp_all add: k1_def k2_def k3_def)
  have pd: "c div 4096 = p" by (simp add: p_def q_def div_mult2_eq)
  have hd: "c div 262144 = h" by (simp add: h_def p_def q_def div_mult2_eq)
  have kd2: "c div 64 mod 64 = k2" by (simp add: k2_def q_def)
  have kd1: "c div 4096 mod 64 = k1" by (simp add: k1_def pd)
  have h: "h < 5" using assms(2) c q p k by linarith
  have lo: "16 \<le> k1" if "h = 0" using that assms(1) c q p k by linarith
  have hi: "k1 \<le> 15" if "h = 4" using that assms(2) c q p k by linarith
  have u0: "unat (byte (240 + h)) = 240 + h" using h by (simp add: unat_byte)
  have u1: "unat (byte (128 + k1)) = 128 + k1" using k by (simp add: unat_byte)
  have u2: "unat (byte (128 + k2)) = 128 + k2" using k by (simp add: unat_byte)
  have u3: "unat (byte (128 + k3)) = 128 + k3" using k by (simp add: unat_byte)
  have "utf8_char (byte (240 + h) # byte (128 + k1) # byte (128 + k2) # byte (128 + k3) # bs)
        = Some (h * 262144 + k1 * 4096 + k2 * 64 + k3, bs)"
    by (rule utf8_char_four[OF u0 h u1 k(1) u2 k(2) u3 k(3) lo hi])
  moreover have "h * 262144 + k1 * 4096 + k2 * 64 + k3 = c" using c q p by linarith
  ultimately show ?thesis
    using assms by (simp add: utf8_encode_char_def hd kd1 kd2 k3_def[symmetric])
qed

lemma utf8_char_encode:
  assumes "scalar_value c"
  shows "utf8_char (utf8_encode_char c @ bs) = Some (c, bs)"
proof -
  consider "c < 0x80" | "0x80 \<le> c" "c < 0x800" | "0x800 \<le> c" "c < 0x10000"
    | "0x10000 \<le> c"
    by linarith
  then show ?thesis
  proof cases
    case 1
    then show ?thesis by (rule utf8_char_encode_1)
  next
    case 2
    then show ?thesis by (rule utf8_char_encode_2)
  next
    case 3
    then show ?thesis using assms utf8_char_encode_3[of c bs] by (simp add: scalar_value_def)
  next
    case 4
    then show ?thesis using assms utf8_char_encode_4[of c bs] by (simp add: scalar_value_def)
  qed
qed

lemma utf8_encode_char_not_Nil: "utf8_encode_char c \<noteq> []"
  by (simp add: utf8_encode_char_def)

lemma utf8_decode_encode:
  "list_all scalar_value s \<Longrightarrow> utf8_decode (utf8_encode s) = Inr s"
proof (induction s)
  case Nil
  then show ?case by (simp add: utf8_encode_def utf8_decode_Nil)
next
  case (Cons c s)
  have e: "utf8_encode (c # s) = utf8_encode_char c @ utf8_encode s"
    by (simp add: utf8_encode_def)
  have "utf8_char (utf8_encode (c # s)) = Some (c, utf8_encode s)"
    unfolding e using Cons.prems by (simp add: utf8_char_encode)
  moreover have "utf8_encode (c # s) \<noteq> []"
    unfolding e by (simp add: utf8_encode_char_not_Nil)
  ultimately show ?case
    using Cons by (subst utf8_decode.simps) simp
qed

lemma byte_unat: "byte (unat b) = b"
  by (simp add: byte_def)

lemma cont_obtain:
  assumes "is_cont b"
  obtains k where "unat b = 128 + k" and "k < 64"
proof
  have "128 \<le> unat b" and "unat b \<le> 191"
    using assms by (simp_all add: is_cont_def word_le_nat_alt)
  then show "unat b = 128 + (unat b - 128)" and "unat b - 128 < 64"
    by linarith+
qed

lemma divmod_base:
  assumes "k < 64"
  shows "(q * 64 + k) div 64 = q" and "(q * 64 + k) mod 64 = (k::nat)"
  using assms by simp_all

lemma encode_two:
  assumes "2 \<le> h" and "h < 32" and "k < 64"
  shows "utf8_encode_char (h * 64 + k) = [byte (192 + h), byte (128 + k)]"
    and "scalar_value (h * 64 + k)"
proof -
  have d: "(h * 64 + k) div 64 = h" using assms(3) by simp
  have m: "(h * 64 + k) mod 64 = k" using assms(3) by simp
  have r: "128 \<le> h * 64 + k" "h * 64 + k < 2048" using assms by linarith+
  show "utf8_encode_char (h * 64 + k) = [byte (192 + h), byte (128 + k)]"
    unfolding utf8_encode_char_def d m using r by simp
  show "scalar_value (h * 64 + k)" unfolding scalar_value_def using r by simp
qed

lemma encode_three:
  assumes "h < 16" and "k1 < 64" and "k2 < 64"
    and "h = 0 \<Longrightarrow> 32 \<le> k1" and "h = 13 \<Longrightarrow> k1 \<le> 31"
  shows "utf8_encode_char (h * 4096 + k1 * 64 + k2)
         = [byte (224 + h), byte (128 + k1), byte (128 + k2)]"
    and "scalar_value (h * 4096 + k1 * 64 + k2)"
proof -
  let ?c = "h * 4096 + k1 * 64 + k2"
  have e: "?c = (h * 64 + k1) * 64 + k2" by simp
  have d1: "?c div 64 = h * 64 + k1" by (simp only: e divmod_base[OF assms(3)])
  have m: "?c mod 64 = k2" by (simp only: e divmod_base[OF assms(3)])
  have d2: "?c div 4096 = h"
  proof -
    have "?c div 4096 = ?c div 64 div 64" by (simp add: div_mult2_eq)
    also have "\<dots> = h" by (simp only: d1 divmod_base[OF assms(2)])
    finally show ?thesis .
  qed
  have m1: "?c div 64 mod 64 = k1" by (simp only: d1 divmod_base[OF assms(2)])
  have lo: "2048 \<le> ?c"
  proof (cases "h = 0")
    case True
    then show ?thesis using assms(4) by simp
  next
    case False
    then show ?thesis by simp
  qed
  have hi: "?c < 65536" using assms(1,2,3) by linarith
  have sur: "\<not> (55296 \<le> ?c \<and> ?c \<le> 57343)"
  proof (cases "h = 13")
    case True
    then show ?thesis using assms(5,3) by simp
  next
    case False
    then have "h \<le> 12 \<or> 14 \<le> h" by linarith
    then show ?thesis using assms(2,3) by auto
  qed
  show "utf8_encode_char ?c = [byte (224 + h), byte (128 + k1), byte (128 + k2)]"
    unfolding utf8_encode_char_def d2 m1 m using lo hi by simp
  show "scalar_value ?c" unfolding scalar_value_def using hi sur by simp
qed

lemma encode_four:
  assumes "h < 5" and "k1 < 64" and "k2 < 64" and "k3 < 64"
    and "h = 0 \<Longrightarrow> 16 \<le> k1" and "h = 4 \<Longrightarrow> k1 \<le> 15"
  shows "utf8_encode_char (h * 262144 + k1 * 4096 + k2 * 64 + k3)
         = [byte (240 + h), byte (128 + k1), byte (128 + k2), byte (128 + k3)]"
    and "scalar_value (h * 262144 + k1 * 4096 + k2 * 64 + k3)"
proof -
  let ?c = "h * 262144 + k1 * 4096 + k2 * 64 + k3"
  have e: "?c = ((h * 64 + k1) * 64 + k2) * 64 + k3" by simp
  have d1: "?c div 64 = (h * 64 + k1) * 64 + k2" by (simp only: e divmod_base[OF assms(4)])
  have m: "?c mod 64 = k3" by (simp only: e divmod_base[OF assms(4)])
  have d2: "?c div 4096 = h * 64 + k1"
  proof -
    have "?c div 4096 = ?c div 64 div 64" by (simp add: div_mult2_eq)
    also have "\<dots> = h * 64 + k1" by (simp only: d1 divmod_base[OF assms(3)])
    finally show ?thesis .
  qed
  have d3: "?c div 262144 = h"
  proof -
    have "?c div 262144 = ?c div 4096 div 64" by (simp add: div_mult2_eq)
    also have "\<dots> = h" by (simp only: d2 divmod_base[OF assms(2)])
    finally show ?thesis .
  qed
  have m2: "?c div 64 mod 64 = k2" by (simp only: d1 divmod_base[OF assms(3)])
  have m1: "?c div 4096 mod 64 = k1" by (simp only: d2 divmod_base[OF assms(2)])
  have lo: "65536 \<le> ?c"
  proof (cases "h = 0")
    case True
    then show ?thesis using assms(5) by simp
  next
    case False
    then show ?thesis by simp
  qed
  have hi: "?c < 1114112"
  proof (cases "h = 4")
    case True
    then show ?thesis using assms(6,3,4) by simp
  next
    case False
    then have "h \<le> 3" using assms(1) by linarith
    then show ?thesis using assms(2,3,4) by linarith
  qed
  show "utf8_encode_char ?c
         = [byte (240 + h), byte (128 + k1), byte (128 + k2), byte (128 + k3)]"
    unfolding utf8_encode_char_def d3 m1 m2 m using lo hi by simp
  show "scalar_value ?c" unfolding scalar_value_def using lo hi by simp
qed

lemma utf8_char_sound_1:
  assumes "b0 < 0x80" and "utf8_char (b0 # bs) = Some (c, r)"
  shows "scalar_value c \<and> b0 # bs = utf8_encode_char c @ r"
proof -
  have c: "c = unat b0" "r = bs" using assms by simp_all
  have u: "unat b0 < 128" using assms(1) by (simp add: word_less_nat_alt)
  then show ?thesis
    unfolding c by (simp add: scalar_value_def utf8_encode_char_def byte_unat)
qed

lemma utf8_char_sound_2:
  assumes "\<not> b0 < 0x80" and "0xC2 \<le> b0 \<and> b0 \<le> 0xDF"
    and "utf8_char (b0 # bs) = Some (c, r)"
  shows "scalar_value c \<and> b0 # bs = utf8_encode_char c @ r"
proof -
  from assms obtain b1 where bs: "bs = b1 # r" and c1: "is_cont b1"
    by (auto split: list.splits if_splits)
  define h where "h = unat b0 - 192"
  have "194 \<le> unat b0" "unat b0 \<le> 223"
    using assms(2) by (simp_all add: word_le_nat_alt)
  then have h: "unat b0 = 192 + h" "2 \<le> h" "h < 32" unfolding h_def by linarith+
  from c1 obtain k1 where k1: "unat b1 = 128 + k1" "k1 < 64" by (rule cont_obtain)
  have "utf8_char (b0 # b1 # r) = Some (h * 64 + k1, r)"
    by (rule utf8_char_two[OF h k1])
  then have c: "c = h * 64 + k1" using assms(3) bs by simp
  have "utf8_encode_char c = [byte (unat b0), byte (unat b1)]"
    unfolding c h(1) k1(1) by (rule encode_two(1)[OF h(2,3) k1(2)])
  moreover have "scalar_value c" unfolding c by (rule encode_two(2)[OF h(2,3) k1(2)])
  ultimately show ?thesis using bs by (simp add: byte_unat)
qed

lemma utf8_char_sound_3:
  assumes "\<not> b0 < 0x80" and "\<not> (0xC2 \<le> b0 \<and> b0 \<le> 0xDF)"
    and "0xE0 \<le> b0 \<and> b0 \<le> 0xEF"
    and "utf8_char (b0 # bs) = Some (c, r)"
  shows "scalar_value c \<and> b0 # bs = utf8_encode_char c @ r"
proof -
  from assms obtain b1 b2 where bs: "bs = b1 # b2 # r"
    and c1: "is_cont b1" and c2: "is_cont b2"
    and lo0: "b0 = 0xE0 \<longrightarrow> 0xA0 \<le> b1" and hi0: "b0 = 0xED \<longrightarrow> b1 \<le> 0x9F"
    by (auto split: list.splits if_splits)
  define h where "h = unat b0 - 224"
  have "224 \<le> unat b0" "unat b0 \<le> 239"
    using assms(3) by (simp_all add: word_le_nat_alt)
  then have h: "unat b0 = 224 + h" "h < 16" unfolding h_def by linarith+
  from c1 obtain k1 where k1: "unat b1 = 128 + k1" "k1 < 64" by (rule cont_obtain)
  from c2 obtain k2 where k2: "unat b2 = 128 + k2" "k2 < 64" by (rule cont_obtain)
  have e0: "(b0 = 0xE0) = (h = 0)" and ed: "(b0 = 0xED) = (h = 13)"
    using h(1) by (simp_all add: word_unat_eq_iff)
  have lo: "32 \<le> k1" if "h = 0"
    using that lo0 unfolding e0 cont_view(3)[OF k1] by blast
  have hi: "k1 \<le> 31" if "h = 13"
    using that hi0 unfolding ed cont_view(4)[OF k1] by blast
  have "utf8_char (b0 # b1 # b2 # r) = Some (h * 4096 + k1 * 64 + k2, r)"
    by (rule utf8_char_three[OF h k1 k2 lo hi])
  then have c: "c = h * 4096 + k1 * 64 + k2" using assms(4) bs by simp
  have "utf8_encode_char c = [byte (unat b0), byte (unat b1), byte (unat b2)]"
    unfolding c h(1) k1(1) k2(1) by (rule encode_three(1)[OF h(2) k1(2) k2(2) lo hi])
  moreover have "scalar_value c"
    unfolding c by (rule encode_three(2)[OF h(2) k1(2) k2(2) lo hi])
  ultimately show ?thesis using bs by (simp add: byte_unat)
qed

lemma utf8_char_sound_4:
  assumes "\<not> b0 < 0x80" and "\<not> (0xC2 \<le> b0 \<and> b0 \<le> 0xDF)"
    and "\<not> (0xE0 \<le> b0 \<and> b0 \<le> 0xEF)" and "0xF0 \<le> b0 \<and> b0 \<le> 0xF4"
    and "utf8_char (b0 # bs) = Some (c, r)"
  shows "scalar_value c \<and> b0 # bs = utf8_encode_char c @ r"
proof -
  from assms obtain b1 b2 b3 where bs: "bs = b1 # b2 # b3 # r"
    and c1: "is_cont b1" and c2: "is_cont b2" and c3: "is_cont b3"
    and lo0: "b0 = 0xF0 \<longrightarrow> 0x90 \<le> b1" and hi0: "b0 = 0xF4 \<longrightarrow> b1 \<le> 0x8F"
    by (auto split: list.splits if_splits)
  define h where "h = unat b0 - 240"
  have "240 \<le> unat b0" "unat b0 \<le> 244"
    using assms(4) by (simp_all add: word_le_nat_alt)
  then have h: "unat b0 = 240 + h" "h < 5" unfolding h_def by linarith+
  from c1 obtain k1 where k1: "unat b1 = 128 + k1" "k1 < 64" by (rule cont_obtain)
  from c2 obtain k2 where k2: "unat b2 = 128 + k2" "k2 < 64" by (rule cont_obtain)
  from c3 obtain k3 where k3: "unat b3 = 128 + k3" "k3 < 64" by (rule cont_obtain)
  have e0: "(b0 = 0xF0) = (h = 0)" and e4: "(b0 = 0xF4) = (h = 4)"
    using h(1) by (simp_all add: word_unat_eq_iff)
  have lo: "16 \<le> k1" if "h = 0"
    using that lo0 unfolding e0 cont_view(5)[OF k1] by blast
  have hi: "k1 \<le> 15" if "h = 4"
    using that hi0 unfolding e4 cont_view(6)[OF k1] by blast
  have "utf8_char (b0 # b1 # b2 # b3 # r)
        = Some (h * 262144 + k1 * 4096 + k2 * 64 + k3, r)"
    by (rule utf8_char_four[OF h k1 k2 k3 lo hi])
  then have c: "c = h * 262144 + k1 * 4096 + k2 * 64 + k3" using assms(5) bs by simp
  have "utf8_encode_char c = [byte (unat b0), byte (unat b1), byte (unat b2), byte (unat b3)]"
    unfolding c h(1) k1(1) k2(1) k3(1)
    by (rule encode_four(1)[OF h(2) k1(2) k2(2) k3(2) lo hi])
  moreover have "scalar_value c"
    unfolding c by (rule encode_four(2)[OF h(2) k1(2) k2(2) k3(2) lo hi])
  ultimately show ?thesis using bs by (simp add: byte_unat)
qed

lemma utf8_char_sound:
  assumes "utf8_char bs = Some (c, r)"
  shows "scalar_value c \<and> bs = utf8_encode_char c @ r"
proof (cases bs)
  case Nil
  then show ?thesis using assms by simp
next
  case (Cons b0 rest)
  have range: "b0 < 0x80 \<or> (0xC2 \<le> b0 \<and> b0 \<le> 0xDF) \<or> (0xE0 \<le> b0 \<and> b0 \<le> 0xEF)
        \<or> (0xF0 \<le> b0 \<and> b0 \<le> 0xF4)"
    using assms unfolding Cons by (auto split: if_splits)
  show ?thesis
    using range assms utf8_char_sound_1[of b0 rest c r] utf8_char_sound_2[of b0 rest c r]
      utf8_char_sound_3[of b0 rest c r] utf8_char_sound_4[of b0 rest c r]
    unfolding Cons by blast
qed

lemma utf8_decode_sound:
  "utf8_decode bs = Inr s \<Longrightarrow> list_all scalar_value s \<and> bs = utf8_encode s"
proof (induction bs arbitrary: s rule: utf8_decode.induct)
  case (1 bs)
  show ?case
  proof (cases "bs = []")
    case True
    then show ?thesis using "1.prems" by (simp add: utf8_decode_Nil utf8_encode_def)
  next
    case False
    from "1.prems" False obtain c r cs where
      ch: "utf8_char bs = Some (c, r)" and d: "utf8_decode r = Inr cs" and s: "s = c # cs"
      by (subst (asm) utf8_decode.simps) (auto split: option.splits sum.splits)
    have "list_all scalar_value cs \<and> r = utf8_encode cs"
      using "1.IH"[OF False ch refl d] by simp
    moreover have "scalar_value c \<and> bs = utf8_encode_char c @ r"
      by (rule utf8_char_sound[OF ch])
    ultimately show ?thesis unfolding s by (simp add: utf8_encode_def)
  qed
qed

lemma utf8_decode_iff:
  "utf8_decode bs = Inr s \<longleftrightarrow> list_all scalar_value s \<and> bs = utf8_encode s"
  using utf8_decode_sound[of bs s] utf8_decode_encode[of s] by blast

lemma utf8_decode_examples:
  "utf8_decode [0x41, 0xC3, 0xA9, 0xE2, 0x82, 0xAC, 0xF0, 0x9F, 0x98, 0x80]
     = Inr [0x41, 0xE9, 0x20AC, 0x1F600]"
  "utf8_decode [0xFF] = Inl UnicodeDecodeError"
  "utf8_decode [0xC0, 0x80] = Inl UnicodeDecodeError"
  "utf8_decode [0xED, 0xA0, 0x80] = Inl UnicodeDecodeError"
  "utf8_decode [0xF4, 0x90, 0x80, 0x80] = Inl UnicodeDecodeError"
  "utf8_decode [0xE2, 0x82] = Inl UnicodeDecodeError"
  by (simp_all add: utf8_decode.simps is_cont_def cont_bits_def)

section \<open>Processing the result of a finished process\<close>

lemma ccx_valid:
  assumes "comm_stderr p = None" and "comm_stdout p = Some (utf8_encode decoded)"
    and "list_all scalar_value decoded" and "lines_of decoded ls"
    and "returncode p = 0 \<or> returncode p \<in> set return_codes"
  shows "process_ccx_notification_service_output ctx (Some p) return_codes
         = Inr (ctx\<lparr>ctx_output := Some ls, ctx_stdout := Some (utf8_encode decoded),
                    ctx_stderr := None, ctx_returncode := Some (returncode p)\<rparr>)"
proof -
  have d: "utf8_decode (utf8_encode decoded) = Inr decoded"
    by (rule utf8_decode_encode[OF assms(3)])
  have l: "split_from [10] [] decoded = ls" using lines_of_unique[OF assms(4)] by simp
  show ?thesis
    using assms(1,2,5) d l
    by (simp add: process_ccx_notification_service_output_def py_split_newline)
qed

lemma pgo_valid:
  assumes "comm_stderr p = None" and "comm_stdout p = Some (utf8_encode decoded)"
    and "list_all scalar_value decoded" and "lines_of decoded ls"
    and "truthy return_code \<longrightarrow> returncode p = 0 \<or> Some (returncode p) = return_code"
  shows "process_generated_output ctx (Some p) return_code
         = Inr (ctx\<lparr>ctx_output := Some (normalize_line_sequence ls),
                    ctx_stdout := Some (utf8_encode decoded),
                    ctx_stderr := None, ctx_return_code := Some (returncode p)\<rparr>)"
proof -
  have d: "utf8_decode (utf8_encode decoded) = Inr decoded"
    by (rule utf8_decode_encode[OF assms(3)])
  have l: "split_from [10] [] decoded = ls" using lines_of_unique[OF assms(4)] by simp
  show ?thesis
    using assms(1,2,5) d l
    by (auto simp: process_generated_output_def py_split_newline)
qed

text \<open>
  C8. Both \<open>process_ccx_notification_service_output\<close> and \<open>process_generated_output\<close>
  decode the captured bytes as UTF-8 and split the text at each newline. When the earlier
  checks pass (no stderr, an accepted exit code) and the captured bytes are the UTF-8
  encoding of a text, the call succeeds and stores the lines of that text (in
  \<open>process_generated_output\<close> after the line filter). Conversely, whenever lines are
  stored, the captured bytes are the UTF-8 encoding of a text, the decoder returned that
  text, and the stored lines are its lines. A payload that is not the UTF-8 encoding of
  any text makes both fail, so no line is compared before decoding and splitting. Every
  text has lines.
\<close>

theorem output_decoded_and_split:
  "(process_ccx_notification_service_output ctx (Some p) return_codes = Inr ctx' \<longrightarrow>
      (\<exists>raw decoded ls. comm_stdout p = Some raw
         \<and> utf8_decode raw = Inr decoded
         \<and> list_all scalar_value decoded \<and> raw = utf8_encode decoded
         \<and> lines_of decoded ls \<and> ctx_output ctx' = Some ls))
   \<and> (process_generated_output ctx (Some p) return_code = Inr ctx'' \<longrightarrow>
      (\<exists>raw decoded ls. comm_stdout p = Some raw
         \<and> utf8_decode raw = Inr decoded
         \<and> list_all scalar_value decoded \<and> raw = utf8_encode decoded
         \<and> lines_of decoded ls \<and> ctx_output ctx'' = Some (normalize_line_sequence ls)))
   \<and> (comm_stdout p = Some raw
        \<and> \<not> (\<exists>decoded. list_all scalar_value decoded \<and> raw = utf8_encode decoded) \<longrightarrow>
        isl (process_ccx_notification_service_output ctx (Some p) return_codes)
        \<and> isl (process_generated_output ctx (Some p) return_code))
   \<and> (comm_stderr p = None \<and> comm_stdout p = Some (utf8_encode s)
        \<and> list_all scalar_value s \<and> lines_of s ls
        \<and> (returncode p = 0 \<or> returncode p \<in> set return_codes) \<longrightarrow>
        process_ccx_notification_service_output ctx (Some p) return_codes
          = Inr (ctx\<lparr>ctx_output := Some ls, ctx_stdout := Some (utf8_encode s),
                     ctx_stderr := None, ctx_returncode := Some (returncode p)\<rparr>))
   \<and> (comm_stderr p = None \<and> comm_stdout p = Some (utf8_encode s)
        \<and> list_all scalar_value s \<and> lines_of s ls
        \<and> (truthy return_code \<longrightarrow> returncode p = 0 \<or> Some (returncode p) = return_code) \<longrightarrow>
        process_generated_output ctx (Some p) return_code
          = Inr (ctx\<lparr>ctx_output := Some (normalize_line_sequence ls),
                     ctx_stdout := Some (utf8_encode s),
                     ctx_stderr := None, ctx_return_code := Some (returncode p)\<rparr>))
   \<and> (\<exists>ls'. lines_of s ls')"
proof (intro conjI impI)
  assume "process_ccx_notification_service_output ctx (Some p) return_codes = Inr ctx'"
  from ccx_Inr[OF this] obtain raw decoded where
    "comm_stdout p = Some raw" "utf8_decode raw = Inr decoded"
    "ctx_output ctx' = Some (split_from [10] [] decoded)" by auto
  then show "\<exists>raw decoded ls. comm_stdout p = Some raw
         \<and> utf8_decode raw = Inr decoded
         \<and> list_all scalar_value decoded \<and> raw = utf8_encode decoded
         \<and> lines_of decoded ls \<and> ctx_output ctx' = Some ls"
    using lines_of_split utf8_decode_sound by blast
next
  assume "process_generated_output ctx (Some p) return_code = Inr ctx''"
  from pgo_Inr[OF this] obtain raw decoded where
    "comm_stdout p = Some raw" "utf8_decode raw = Inr decoded"
    "ctx_output ctx'' = Some (normalize_line_sequence (split_from [10] [] decoded))" by auto
  then show "\<exists>raw decoded ls. comm_stdout p = Some raw
         \<and> utf8_decode raw = Inr decoded
         \<and> list_all scalar_value decoded \<and> raw = utf8_encode decoded
         \<and> lines_of decoded ls \<and> ctx_output ctx'' = Some (normalize_line_sequence ls)"
    using lines_of_split utf8_decode_sound by blast
next
  assume a: "comm_stdout p = Some raw
        \<and> \<not> (\<exists>decoded. list_all scalar_value decoded \<and> raw = utf8_encode decoded)"
  then have "\<exists>e. utf8_decode raw = Inl e"
    using utf8_decode_sound[of raw] by (cases "utf8_decode raw") auto
  then obtain e where e: "utf8_decode raw = Inl e" ..
  show "isl (process_ccx_notification_service_output ctx (Some p) return_codes)"
    using a e by (simp add: process_ccx_notification_service_output_def)
  show "isl (process_generated_output ctx (Some p) return_code)"
    using a e by (simp add: process_generated_output_def)
next
  assume "comm_stderr p = None \<and> comm_stdout p = Some (utf8_encode s)
        \<and> list_all scalar_value s \<and> lines_of s ls
        \<and> (returncode p = 0 \<or> returncode p \<in> set return_codes)"
  then show "process_ccx_notification_service_output ctx (Some p) return_codes
          = Inr (ctx\<lparr>ctx_output := Some ls, ctx_stdout := Some (utf8_encode s),
                     ctx_stderr := None, ctx_returncode := Some (returncode p)\<rparr>)"
    using ccx_valid[of p s ls return_codes ctx] by blast
next
  assume "comm_stderr p = None \<and> comm_stdout p = Some (utf8_encode s)
        \<and> list_all scalar_value s \<and> lines_of s ls
        \<and> (truthy return_code \<longrightarrow> returncode p = 0 \<or> Some (returncode p) = return_code)"
  then show "process_generated_output ctx (Some p) return_code
          = Inr (ctx\<lparr>ctx_output := Some (normalize_line_sequence ls),
                     ctx_stdout := Some (utf8_encode s),
                     ctx_stderr := None, ctx_return_code := Some (returncode p)\<rparr>)"
    using pgo_valid[of p s ls return_code ctx] by blast
next
  show "\<exists>ls'. lines_of s ls'" using lines_of_split by blast
qed

theorem output_decoded_and_split_witness:
  "process_ccx_notification_service_output empty_context
     (Some \<lparr>comm_stdout = Some [0xC3, 0xA9, 0x0A, 0xE2, 0x82, 0xAC], comm_stderr = None,
            returncode = 0\<rparr>) [4, 5, 9]
   = Inr (empty_context\<lparr>ctx_output := Some [[0xE9], [0x20AC]],
                         ctx_stdout := Some [0xC3, 0xA9, 0x0A, 0xE2, 0x82, 0xAC],
                         ctx_stderr := None,
                         ctx_returncode := Some 0\<rparr>)
   \<and> process_generated_output empty_context
     (Some \<lparr>comm_stdout = Some [0xC3, 0xA9, 0x0A, 0xE2, 0x82, 0xAC], comm_stderr = None,
            returncode = 0\<rparr>) None
   = Inr (empty_context\<lparr>ctx_output := Some [[0xE9], [0x20AC]],
                         ctx_stdout := Some [0xC3, 0xA9, 0x0A, 0xE2, 0x82, 0xAC],
                         ctx_stderr := None,
                         ctx_return_code := Some 0\<rparr>)
   \<and> list_all scalar_value [0xE9, 0x0A, 0x20AC]
   \<and> utf8_encode [0xE9, 0x0A, 0x20AC] = [0xC3, 0xA9, 0x0A, 0xE2, 0x82, 0xAC]
   \<and> lines_of [0xE9, 0x0A, 0x20AC] [[0xE9], [0x20AC]]"
proof -
  let ?raw = "[0xC3, 0xA9, 0x0A, 0xE2, 0x82, 0xAC] :: bytes"
  let ?p = "\<lparr>comm_stdout = Some ?raw, comm_stderr = None, returncode = 0\<rparr>"
  let ?s = "[0xE9, 0x0A, 0x20AC] :: str"
  let ?ls = "[[0xE9], [0x20AC]] :: str list"
  have sv: "list_all scalar_value ?s" by (simp add: scalar_value_def)
  have enc: "utf8_encode ?s = ?raw"
    by (simp add: utf8_encode_def utf8_encode_char_def byte_def)
  have ls: "lines_of ?s ?ls" by (simp add: lines_of_def)
  have nm: "normalize_line_sequence ?ls = ?ls"
    by (simp add: normalize_line_sequence_def COVERAGE_MESSAGE_def str_of_def)
  have hp: "comm_stderr ?p = None \<and> comm_stdout ?p = Some (utf8_encode ?s)"
    by (simp add: enc)
  have t: "\<not> truthy None" by (simp add: truthy_def)
  have 1: "process_ccx_notification_service_output empty_context (Some ?p) [4, 5, 9]
      = Inr (empty_context\<lparr>ctx_output := Some ?ls, ctx_stdout := Some (utf8_encode ?s),
                     ctx_stderr := None, ctx_returncode := Some (returncode ?p)\<rparr>)"
    using hp sv ls
      output_decoded_and_split[where p = ?p and s = ?s and ls = ?ls
        and return_codes = "[4, 5, 9]" and ctx = empty_context]
    by simp
  have 2: "process_generated_output empty_context (Some ?p) None
      = Inr (empty_context\<lparr>ctx_output := Some (normalize_line_sequence ?ls),
                     ctx_stdout := Some (utf8_encode ?s),
                     ctx_stderr := None, ctx_return_code := Some (returncode ?p)\<rparr>)"
    using hp sv ls t
      output_decoded_and_split[where p = ?p and s = ?s and ls = ?ls
        and return_code = None and ctx = empty_context]
    by simp
  show ?thesis
    using 1 2 sv ls unfolding nm enc by simp
qed







text \<open>
  C10. When the expected \<open>return_code\<close> is \<open>None\<close> or \<open>0\<close>, \<open>process_generated_output\<close> makes
  no assertion on the exit code: the outcome for any exit code is the outcome for exit
  code 0, with that exit code stored, and the return-code assertion is never raised.
\<close>

theorem no_return_code_check_when_falsy:
  "return_code = None \<or> return_code = Some 0 \<Longrightarrow>
     process_generated_output ctx (Some (p\<lparr>returncode := r\<rparr>)) return_code
       = map_sum id (\<lambda>c. c\<lparr>ctx_return_code := Some r\<rparr>)
           (process_generated_output ctx (Some (p\<lparr>returncode := 0\<rparr>)) return_code)
     \<and> process_generated_output ctx out return_code \<noteq> Inl (AssertionError (Return_code_is k))"
proof
  assume a: "return_code = None \<or> return_code = Some 0"
  then have f: "\<not> truthy return_code" by (auto simp: truthy_def)
  show "process_generated_output ctx (Some (p\<lparr>returncode := r\<rparr>)) return_code
       = map_sum id (\<lambda>c. c\<lparr>ctx_return_code := Some r\<rparr>)
           (process_generated_output ctx (Some (p\<lparr>returncode := 0\<rparr>)) return_code)"
    using f by (simp add: process_generated_output_def split: option.splits sum.splits)
  show "process_generated_output ctx out return_code \<noteq> Inl (AssertionError (Return_code_is k))"
    using f by (auto simp: process_generated_output_def py_split_newline
        split: option.splits sum.splits dest: utf8_decode_error)
qed

theorem no_return_code_check_when_falsy_witness:
  "process_generated_output empty_context
     (Some \<lparr>comm_stdout = Some [0x6F, 0x6B], comm_stderr = None, returncode = 3\<rparr>) None
   = Inr (empty_context\<lparr>ctx_output := Some [str_of ''ok''], ctx_stdout := Some [0x6F, 0x6B],
                         ctx_stderr := None, ctx_return_code := Some 3\<rparr>)"
proof -
  let ?p = "\<lparr>comm_stdout = Some [0x6F, 0x6B], comm_stderr = None, returncode = 7\<rparr>"
  have "process_generated_output empty_context (Some (?p\<lparr>returncode := 0\<rparr>)) None
        = Inr (empty_context\<lparr>ctx_output := Some [str_of ''ok''],
                 ctx_stdout := Some [0x6F, 0x6B], ctx_stderr := None,
                 ctx_return_code := Some 0\<rparr>)"
    by (simp add: process_generated_output_def truthy_def utf8_decode_ascii utf8_decode_Nil
        py_split_char split_from_char_Cons split_from_Nil normalize_line_sequence_def
        COVERAGE_MESSAGE_def str_of_def)
  then show ?thesis
    using no_return_code_check_when_falsy[where return_code = None and ctx = empty_context
        and p = ?p and r = 3]
    by simp
qed

section \<open>The max-age parameter\<close>

lemma py_replace_char_Cons:
  "py_replace [q] [] (c # cs) =
     (if c = q then py_replace [q] [] cs else c # py_replace [q] [] cs)"
  using py_replace_prefix[of "[q]" "[]" cs] py_replace_Cons[of "[q]" c cs "[]"]
  by simp

lemma py_replace_char_filter: "py_replace [q] [] s = filter (\<lambda>c. c \<noteq> q) s"
  by (induction s) (simp_all add: py_replace_Nil py_replace_char_Cons)

lemma split_from_two:
  "split_from [t] [] s = [a, b] \<longleftrightarrow> s = a @ t # b \<and> t \<notin> set a \<and> t \<notin> set b"
proof
  assume e: "split_from [t] [] s = [a, b]"
  have "py_join [t] (split_from [t] [] s) = s"
    using py_join_split_from[of "[t]" "[]" s] by simp
  then have "s = a @ t # b" using e by simp
  moreover have "t \<notin> set a" "t \<notin> set b"
    using split_from_char_free[of t "[]" _ s] e by simp_all
  ultimately show "s = a @ t # b \<and> t \<notin> set a \<and> t \<notin> set b" by simp
next
  assume "s = a @ t # b \<and> t \<notin> set a \<and> t \<notin> set b"
  then show "split_from [t] [] s = [a, b]"
    using split_from_char_unique[of "[a, b]" t s] by simp
qed

lemma length_two: "length xs = 2 \<longleftrightarrow> (\<exists>a b. xs = [a, b])"
  by (cases xs; cases "tl xs") auto

lemma two_tokens_split:
  "two_tokens db s \<longleftrightarrow>
     (\<exists>a b. split_from [32] [] s = [a, b] \<and> isdigit db a \<and> isalpha db b)"
proof
  assume "two_tokens db s"
  then obtain i where i: "i < length s" "s ! i = 32" "32 \<notin> set (take i s)"
    "32 \<notin> set (drop (Suc i) s)" "isdigit db (take i s)" "isalpha db (drop (Suc i) s)"
    by (auto simp: two_tokens_def)
  have "s = take i s @ 32 # drop (Suc i) s"
    using i(1,2) id_take_nth_drop[of i s] by simp
  then have "split_from [32] [] s = [take i s, drop (Suc i) s]"
    using i(3,4) split_from_two[of 32 s "take i s" "drop (Suc i) s"] by simp
  then show "\<exists>a b. split_from [32] [] s = [a, b] \<and> isdigit db a \<and> isalpha db b"
    using i(5,6) by blast
next
  assume "\<exists>a b. split_from [32] [] s = [a, b] \<and> isdigit db a \<and> isalpha db b"
  then obtain a b where ab: "split_from [32] [] s = [a, b]" "isdigit db a" "isalpha db b"
    by blast
  then have s: "s = a @ 32 # b" "32 \<notin> set a" "32 \<notin> set b"
    using split_from_two[of 32 s a b] by simp_all
  have "length a < length s" "s ! length a = 32" "take (length a) s = a"
    "drop (Suc (length a)) s = b"
    using s(1) by simp_all
  then show "two_tokens db s"
    unfolding two_tokens_def using ab(2,3) s(2,3) by (intro bexI[of _ "length a"]) simp_all
qed

lemma parse_max_age_Str:
  "parse_max_age db (Str s) =
     (let items = split_from [32] [] (filter (\<lambda>c. c \<noteq> 34) s) in
      if length items \<noteq> 2 then Inl (AssertionError (Expected_two_parts s))
      else if \<not> isdigit db (items ! 0) then Inl (AssertionError (Expected_integer (items ! 0)))
      else if \<not> isalpha db (items ! 1) then Inl (AssertionError (Expected_alpha (items ! 1)))
      else Inr s)"
  by (simp add: parse_max_age_def str_of_def py_split_char py_replace_char_filter Let_def)

lemma parse_max_age_two:
  "split_from [32] [] (filter (\<lambda>c. c \<noteq> 34) s) = [a, b] \<Longrightarrow>
   parse_max_age db (Str s) =
     (if \<not> isdigit db a then Inl (AssertionError (Expected_integer a))
      else if \<not> isalpha db b then Inl (AssertionError (Expected_alpha b))
      else Inr s)"
  by (simp add: parse_max_age_Str)

lemma parse_max_age_not_two:
  "length (split_from [32] [] (filter (\<lambda>c. c \<noteq> 34) s)) \<noteq> 2 \<Longrightarrow>
   parse_max_age db (Str s) = Inl (AssertionError (Expected_two_parts s))"
  by (simp add: parse_max_age_Str)

text \<open>
  C5. The claim that \<open>parse_max_age\<close> accepts exactly the inputs that are two
  space-separated tokens, digits then letters, fails: double quotes are deleted before the
  input is split, so the quoted text \<open>"5 days"\<close> is accepted although its first token is
  not entirely digits.
\<close>

theorem parse_max_age_accepts_quoted:
  "parse_max_age ascii_only (Str (str_of ''\"5 days\"'')) = Inr (str_of ''\"5 days\"'')
   \<and> \<not> two_tokens ascii_only (str_of ''\"5 days\"'')"
proof
  show "parse_max_age ascii_only (Str (str_of ''\"5 days\"'')) = Inr (str_of ''\"5 days\"'')"
    by (simp add: parse_max_age_Str str_of_def split_from_char_Cons split_from_Nil
        isdigit_def isalpha_def digit_char_def alpha_char_def)
  show "\<not> two_tokens ascii_only (str_of ''\"5 days\"'')"
    by (simp add: two_tokens_split str_of_def split_from_char_Cons split_from_Nil
        isdigit_def digit_char_def)
qed

text \<open>
  C5, amended. \<open>parse_max_age\<close> accepts a string, returning it unchanged (quotes
  included), if and only if the string with every double quote deleted is exactly two
  space-separated tokens, the first entirely digits and the second entirely alphabetic.
  Every other string, and every argument that is not a string, raises an assertion
  failure.
\<close>

theorem parse_max_age_accepts_iff:
  "(parse_max_age db (Str s) = Inr r
      \<longleftrightarrow> r = s \<and> two_tokens db (filter (\<lambda>c. c \<noteq> 34) s))
   \<and> (\<not> two_tokens db (filter (\<lambda>c. c \<noteq> 34) s)
        \<longrightarrow> (\<exists>m. parse_max_age db (Str s) = Inl (AssertionError m)))
   \<and> parse_max_age db Not_a_str = Inl (AssertionError Expected_max_age_string)"
proof -
  let ?d = "filter (\<lambda>c. c \<noteq> 34) s"
  have main: "(parse_max_age db (Str s) = Inr r \<longleftrightarrow> r = s \<and> two_tokens db ?d)
     \<and> (\<not> two_tokens db ?d \<longrightarrow> (\<exists>m. parse_max_age db (Str s) = Inl (AssertionError m)))"
  proof (cases "length (split_from [32] [] ?d) = 2")
    case False
    then have p: "parse_max_age db (Str s) = Inl (AssertionError (Expected_two_parts s))"
      by (rule parse_max_age_not_two)
    have "\<not> two_tokens db ?d"
    proof
      assume "two_tokens db ?d"
      then obtain a b where "split_from [32] [] ?d = [a, b]"
        unfolding two_tokens_split by blast
      then show False using False by simp
    qed
    with p show ?thesis by simp
  next
    case True
    then obtain a b where ab: "split_from [32] [] ?d = [a, b]"
      unfolding length_two by blast
    have t: "two_tokens db ?d \<longleftrightarrow> isdigit db a \<and> isalpha db b"
      unfolding two_tokens_split using ab by simp
    show ?thesis
      unfolding parse_max_age_two[OF ab] t by auto
  qed
  have "parse_max_age db Not_a_str = Inl (AssertionError Expected_max_age_string)"
    by (simp add: parse_max_age_def)
  with main show ?thesis by blast
qed

theorem parse_max_age_accepts_iff_witness:
  "two_tokens ascii_only (filter (\<lambda>c. c \<noteq> 34) (str_of ''\"5 days\"''))
   \<and> parse_max_age ascii_only (Str (str_of ''\"5 days\"'')) = Inr (str_of ''\"5 days\"'')
   \<and> \<not> two_tokens ascii_only (filter (\<lambda>c. c \<noteq> 34) (str_of ''5 days ago''))
   \<and> (\<exists>m. parse_max_age ascii_only (Str (str_of ''5 days ago'')) = Inl (AssertionError m))"
proof -
  have a: "two_tokens ascii_only (filter (\<lambda>c. c \<noteq> 34) (str_of ''\"5 days\"''))"
    by (simp add: two_tokens_split str_of_def split_from_char_Cons split_from_Nil
        isdigit_def isalpha_def digit_char_def alpha_char_def)
  have b: "\<not> two_tokens ascii_only (filter (\<lambda>c. c \<noteq> 34) (str_of ''5 days ago''))"
    by (simp add: two_tokens_split str_of_def split_from_char_Cons split_from_Nil)
  show ?thesis
    using a b parse_max_age_accepts_iff[of ascii_only "str_of ''\"5 days\"''" "str_of ''\"5 days\"''"]
      parse_max_age_accepts_iff[of ascii_only "str_of ''5 days ago''"]
    by blast
qed

section \<open>Matching the logs\<close>

lemma check_row_passes: "check_row decoded r = Inr () \<longleftrightarrow> row_passes decoded r"
  by (auto simp: check_row_def row_passes_def cell_def str_of_def
      split: option.splits sum.splits if_splits)

lemma check_rows_append:
  "\<forall>q\<in>set pre. row_passes decoded q \<Longrightarrow>
   check_rows decoded (pre @ rows) = check_rows decoded rows"
proof (induction pre)
  case Nil
  then show ?case by simp
next
  case (Cons q pre)
  then have "check_row decoded q = Inr ()" by (simp add: check_row_passes)
  then show ?case using Cons by simp
qed

lemma check_rows_all: "\<forall>q\<in>set rows. row_passes decoded q \<Longrightarrow> check_rows decoded rows = Inr ()"
  using check_rows_append[of rows decoded "[]"] by simp

lemma check_rows_stop:
  "check_row decoded r = Inl e \<Longrightarrow> check_rows decoded (r # post) = Inl e"
  by simp

lemma check_logs_rows:
  "ctx_stdout ctx = Some raw \<Longrightarrow> utf8_decode raw = Inr decoded \<Longrightarrow>
   ctx_table ctx = Some rows \<Longrightarrow> check_logs ctx = check_rows decoded rows"
  by (simp add: check_logs_def)

text \<open>
  C7. The claim that every row whose \<open>contains\<close> value is neither \<open>yes\<close> nor \<open>no\<close> makes
  the step raise \<open>ValueError\<close> fails: the loop stops at the first row that raises, so a
  \<open>yes\<close> row whose log text is absent fails its assertion before a later row with the
  value \<open>maybe\<close> is read.
\<close>

theorem check_logs_stops_before_bad_option:
  "check_logs (empty_context\<lparr>ctx_stdout := Some [0x6F, 0x6B],
       ctx_table := Some [[''log'' \<mapsto> str_of ''ko'', ''contains'' \<mapsto> str_of ''yes''],
                          [''log'' \<mapsto> str_of ''ok'', ''contains'' \<mapsto> str_of ''maybe'']]\<rparr>)
     = Inl (AssertionError (Log_not_found (str_of ''ko'') (str_of ''ok'')))"
proof -
  have d: "utf8_decode [0x6F, 0x6B] = Inr (str_of ''ok'')"
    by (simp add: utf8_decode_ascii utf8_decode_Nil str_of_def)
  have m: "\<not> py_in (str_of ''ko'') (str_of ''ok'')"
    by (simp add: str_of_def py_in_Cons py_in_Nil)
  have r: "check_row (str_of ''ok'')
             [''log'' \<mapsto> str_of ''ko'', ''contains'' \<mapsto> str_of ''yes'']
           = Inl (AssertionError (Log_not_found (str_of ''ko'') (str_of ''ok'')))"
    using m by (simp add: check_row_def cell_def)
  show ?thesis
    by (simp add: check_logs_def d r)
qed

text \<open>
  C7, amended. Let the captured stdout decode as UTF-8 and let a row that has a \<open>log\<close> and
  a \<open>contains\<close> cell be reached with every earlier row agreeing with the output (\<open>yes\<close>
  with its log text present, \<open>no\<close> with it absent). Then, whatever rows follow: a
  \<open>contains\<close> value other than \<open>yes\<close> and \<open>no\<close> raises \<open>ValueError\<close> with a message naming
  the value, not an assertion failure; \<open>yes\<close> with the log text absent, and \<open>no\<close> with the
  log text present, fail their assertion; and when this row and all later rows agree with
  the output the step succeeds.
\<close>

theorem check_logs_rows_checked:
  assumes "ctx_stdout ctx = Some raw" and "utf8_decode raw = Inr decoded"
    and "ctx_table ctx = Some (pre @ r # post)"
    and "\<forall>q\<in>set pre. row_passes decoded q"
    and "r ''log'' = Some log" and "r ''contains'' = Some contains"
  shows "(contains \<noteq> str_of ''yes'' \<and> contains \<noteq> str_of ''no'' \<longrightarrow>
            check_logs ctx = Inl (ValueError (str_of ''option \"'' @ contains
                                     @ str_of ''\" is other than \"yes\" or \"no\"'')))
       \<and> (contains = str_of ''yes'' \<and> \<not> py_in log decoded \<longrightarrow>
            check_logs ctx = Inl (AssertionError (Log_not_found log decoded)))
       \<and> (contains = str_of ''no'' \<and> py_in log decoded \<longrightarrow>
            check_logs ctx = Inl (AssertionError (Log_found log decoded)))
       \<and> (row_passes decoded r \<and> (\<forall>q\<in>set post. row_passes decoded q) \<longrightarrow>
            check_logs ctx = Inr ())"
proof -
  have rows: "check_logs ctx = check_rows decoded (r # post)"
    using check_logs_rows[OF assms(1,2,3)] check_rows_append[OF assms(4)] by simp
  have row: "check_row decoded r =
      (if contains = str_of ''yes'' then
         (if py_in log decoded then Inr ()
          else Inl (AssertionError (Log_not_found log decoded)))
       else if contains = str_of ''no'' then
         (if \<not> py_in log decoded then Inr ()
          else Inl (AssertionError (Log_found log decoded)))
       else Inl (ValueError (str_of ''option \"'' @ contains
                               @ str_of ''\" is other than \"yes\" or \"no\"'')))"
    using assms(5,6) by (simp add: check_row_def cell_def)
  have ne: "str_of ''yes'' \<noteq> str_of ''no''" by (simp add: str_of_def)
  have 1: "contains \<noteq> str_of ''yes'' \<and> contains \<noteq> str_of ''no'' \<longrightarrow>
            check_logs ctx = Inl (ValueError (str_of ''option \"'' @ contains
                                     @ str_of ''\" is other than \"yes\" or \"no\"''))"
    unfolding rows using row by simp
  have 2: "contains = str_of ''yes'' \<and> \<not> py_in log decoded \<longrightarrow>
            check_logs ctx = Inl (AssertionError (Log_not_found log decoded))"
    unfolding rows using row by simp
  have 3: "contains = str_of ''no'' \<and> py_in log decoded \<longrightarrow>
            check_logs ctx = Inl (AssertionError (Log_found log decoded))"
    unfolding rows using row ne by simp
  have 4: "row_passes decoded r \<and> (\<forall>q\<in>set post. row_passes decoded q) \<longrightarrow>
            check_logs ctx = Inr ()"
    unfolding rows using check_rows_all[of "r # post" decoded] by simp
  from 1 2 3 4 show ?thesis by blast
qed

theorem check_logs_rows_checked_witness:
  "check_logs (empty_context\<lparr>ctx_stdout := Some [0x6F, 0x6B],
       ctx_table := Some [[''log'' \<mapsto> str_of ''ok'', ''contains'' \<mapsto> str_of ''yes''],
                          [''log'' \<mapsto> str_of ''ok'', ''contains'' \<mapsto> str_of ''maybe'']]\<rparr>)
     = Inl (ValueError (str_of ''option \"maybe\" is other than \"yes\" or \"no\"''))
   \<and> check_logs (empty_context\<lparr>ctx_stdout := Some [0x6F, 0x6B],
       ctx_table := Some [[''log'' \<mapsto> str_of ''ok'', ''contains'' \<mapsto> str_of ''yes''],
                          [''log'' \<mapsto> str_of ''ko'', ''contains'' \<mapsto> str_of ''yes'']]\<rparr>)
     = Inl (AssertionError (Log_not_found (str_of ''ko'') (str_of ''ok'')))"
proof -
  let ?yes = "[''log'' \<mapsto> str_of ''ok'', ''contains'' \<mapsto> str_of ''yes'']"
  let ?bad = "[''log'' \<mapsto> str_of ''ok'', ''contains'' \<mapsto> str_of ''maybe'']"
  let ?miss = "[''log'' \<mapsto> str_of ''ko'', ''contains'' \<mapsto> str_of ''yes'']"
  let ?c1 = "empty_context\<lparr>ctx_stdout := Some [0x6F, 0x6B], ctx_table := Some [?yes, ?bad]\<rparr>"
  let ?c2 = "empty_context\<lparr>ctx_stdout := Some [0x6F, 0x6B], ctx_table := Some [?yes, ?miss]\<rparr>"
  have d: "utf8_decode [0x6F, 0x6B] = Inr (str_of ''ok'')"
    by (simp add: utf8_decode_ascii utf8_decode_Nil str_of_def)
  have pre: "\<forall>q\<in>set [?yes]. row_passes (str_of ''ok'') q"
    by (simp add: row_passes_def str_of_def py_in_Cons)
  have n: "str_of ''maybe'' \<noteq> str_of ''yes'' \<and> str_of ''maybe'' \<noteq> str_of ''no''"
    by (simp add: str_of_def)
  have m: "\<not> py_in (str_of ''ko'') (str_of ''ok'')"
    by (simp add: str_of_def py_in_Cons py_in_Nil)
  have "check_logs ?c1 = Inl (ValueError (str_of ''option \"'' @ str_of ''maybe''
                                     @ str_of ''\" is other than \"yes\" or \"no\"''))"
    using check_logs_rows_checked[of ?c1 "[0x6F, 0x6B]" "str_of ''ok''" "[?yes]" ?bad "[]"
        "str_of ''ok''" "str_of ''maybe''"] d pre n
    by simp
  moreover have "str_of ''option \"'' @ str_of ''maybe'' @ str_of ''\" is other than \"yes\" or \"no\"''
      = str_of ''option \"maybe\" is other than \"yes\" or \"no\"''"
    by (simp add: str_of_def)
  moreover have "check_logs ?c2 = Inl (AssertionError (Log_not_found (str_of ''ko'') (str_of ''ok'')))"
    using check_logs_rows_checked[of ?c2 "[0x6F, 0x6B]" "str_of ''ok''" "[?yes]" ?miss "[]"
        "str_of ''ko''" "str_of ''yes''"] d pre m
    by simp
  ultimately show ?thesis by (simp only:) 
qed

end
